theory Spec2Isabelle
  imports Main "HOL-Library.Multiset"
begin

section \<open>Members, processes, events\<close>

text \<open>
  The grouper package of ifrit (Go). A member is a named runner; the runner itself is an
  interface value of the caller and is kept as an opaque number. Signals
  (\<^verbatim>\<open>os.Signal\<close>) and errors are interface values that may be nil: they are strings
  under \<open>option\<close>, with \<open>None\<close> for nil.
\<close>

type_synonym signal = string
type_synonym error = string

datatype Member = Member (Name: string) (Runner: nat)

text \<open>
  \<^verbatim>\<open>ifrit.Background(member)\<close> starts the member and returns its process handle. The
  handle offers \<^verbatim>\<open>Signal(sig)\<close>, \<^verbatim>\<open>Ready()\<close> and \<^verbatim>\<open>Wait()\<close>; the last two return
  channels (the file itself receives from them: \<^verbatim>\<open>case <-process.Ready()\<close>,
  \<^verbatim>\<open>Err: <-process.Wait()\<close>).
\<close>

datatype Process = Background Member

datatype EntranceEvent = EntranceEvent (EntranceMember: Member) (EntranceProcess: Process)

datatype ExitEvent = ExitEvent (ExitMember: Member) (Err: "error option")

text \<open>
  What the code does to its collaborators is recorded as a list of actions, in program
  order. Calling \<^verbatim>\<open>p.Wait()\<close> only obtains the wait channel (\<open>ProcessWait\<close>); blocking
  until the process has exited is the receive \<^verbatim>\<open><-p.Wait()\<close>, which is \<open>ProcessWait\<close>
  followed by \<open>RecvWait\<close>.
\<close>

datatype action =
    ProcessSignal Process "signal option"
  | ProcessWait Process
  | RecvWait Process
  | ClientClose
  | CloseBroadcasters
  | CloseEntranceBroadcaster
  | BroadcastEntrance EntranceEvent
  | BroadcastExit ExitEvent
  | GoWaitForEvents Member Process

section \<open>The process set (dynamic\_group.go)\<close>

record processElement =
  index :: int
  process :: Process

text \<open>
  The Go map \<^verbatim>\<open>processes map[string]processElement\<close> is an association list with
  one entry per key, in insertion order; \<open>Add\<close> only ever writes a key that is absent.
  Go's \<^verbatim>\<open>int\<close> is \<open>int\<close> here: the counters of this package move by one per
  event and do not come near the end of the 64-bit range.
\<close>

record processSet =
  ordered :: bool
  count :: int
  processes :: "(string \<times> processElement) list"
  shutdown :: "signal option"

definition newProcessSet :: "bool \<Rightarrow> processSet" where
  "newProcessSet ord = \<lparr>ordered = ord, count = 0, processes = [], shutdown = None\<rparr>"

definition Signaled :: "processSet \<Rightarrow> bool" where
  "Signaled g = (shutdown g \<noteq> None)"

definition Length :: "processSet \<Rightarrow> int" where
  "Length g = int (length (processes g))"

definition Complete :: "processSet \<Rightarrow> bool" where
  "Complete g = (length (processes g) = 0 \<and> shutdown g \<noteq> None)"

datatype panic = MemberInsertedTwice string

definition Add :: "processSet \<Rightarrow> string \<Rightarrow> Process \<Rightarrow> panic + processSet" where
  "Add g name proc =
     (case map_of (processes g) name of
        Some _ \<Rightarrow> Inl (MemberInsertedTwice name)
      | None \<Rightarrow>
          Inr (g\<lparr>processes := processes g @ [(name, \<lparr>index = count g, process = proc\<rparr>)],
                 count := count g + 1\<rparr>))"

definition Remove :: "processSet \<Rightarrow> string \<Rightarrow> processSet" where
  "Remove g name = g\<lparr>processes := filter (\<lambda>e. fst e \<noteq> name) (processes g)\<rparr>"

text \<open>
  \<^verbatim>\<open>sort.Sort(pSlice)\<close> with \<^verbatim>\<open>Less(i, j) = p[i].index > p[j].index\<close>: descending
  index.
\<close>

definition sortSlice :: "processElement list \<Rightarrow> processElement list" where
  "sortSlice pSlice = sort_key (\<lambda>p. - index p) pSlice"

text \<open>
  The second loop of \<open>Signal\<close>: each process is sent the signal; in an ordered set
  \<^verbatim>\<open>p.process.Wait()\<close> is then called, and its result (the channel) is dropped.
\<close>

fun signalEach :: "bool \<Rightarrow> signal option \<Rightarrow> processElement list \<Rightarrow> action list" where
  "signalEach ord sig [] = []"
| "signalEach ord sig (p # ps) =
     (ProcessSignal (process p) sig # (if ord then [ProcessWait (process p)] else []))
       @ signalEach ord sig ps"

text \<open>
  \<open>SignalRange g sig pSlice\<close> is \<open>Signal\<close> when the \<^verbatim>\<open>range\<close> over the map has yielded
  the elements in the order \<open>pSlice\<close> (Go leaves that order open); \<open>Signal\<close> takes the
  insertion order.
\<close>

definition SignalRange ::
  "processSet \<Rightarrow> signal option \<Rightarrow> processElement list \<Rightarrow> processSet \<times> action list" where
  "SignalRange g sig pSlice =
     (g\<lparr>shutdown := sig\<rparr>,
      signalEach (ordered g) sig (if ordered g then sortSlice pSlice else pSlice))"

definition Signal :: "processSet \<Rightarrow> signal option \<Rightarrow> processSet \<times> action list" where
  "Signal g sig = SignalRange g sig (map snd (processes g))"

text \<open>
  The stop loop of the ordered static group (\<^verbatim>\<open>orderedStop\<close>), for comparison: there
  the wait channel is received from (\<^verbatim>\<open><-p.Wait()\<close>) before the loop goes on.
  \<open>get\<close> is the client's lookup \<^verbatim>\<open>client.Get(name)\<close>.
\<close>

fun stopEach :: "(string \<Rightarrow> Process option) \<Rightarrow> signal option \<Rightarrow> Member list \<Rightarrow> action list" where
  "stopEach get sig [] = []"
| "stopEach get sig (m # ms) =
     (case get (Name m) of
        Some p \<Rightarrow> [ProcessSignal p sig, ProcessWait p, RecvWait p]
      | None \<Rightarrow> []) @ stopEach get sig ms"

definition orderedStop :: "Member list \<Rightarrow> (string \<Rightarrow> Process option) \<Rightarrow> signal option \<Rightarrow> action list" where
  "orderedStop members get sig = ClientClose # stopEach get sig (rev members)"

section \<open>The per-member observer (waitForEvents)\<close>

text \<open>
  \<open>waitForEvents\<close> runs in a goroutine of its own. What it meets is given by an
  \<open>observation\<close>: which of the process's two channels its \<^verbatim>\<open>select\<close> takes first (or
  neither, for a process that never gets ready and never exits), whether the engine
  receives what it sends on the unbuffered entrance and exit channels, and what
  \<^verbatim>\<open><-process.Wait()\<close> delivers after readiness (\<open>None\<close>: the process does not exit).
  The result is the list of sends it completes, in order.
\<close>

datatype first_event = ReadyFirst | WaitFirst "error option" | NeitherFires

record observation =
  first :: first_event
  entrance_received :: bool
  wait_value :: "error option option"
  exit_received :: bool

datatype emitted = SendEntrance EntranceEvent | SendExit ExitEvent

definition waitForEvents :: "Member \<Rightarrow> Process \<Rightarrow> observation \<Rightarrow> emitted list" where
  "waitForEvents member proc env =
     (case first env of
        ReadyFirst \<Rightarrow>
          if \<not> entrance_received env then []
          else SendEntrance (EntranceEvent member proc) #
            (case wait_value env of
               None \<Rightarrow> []
             | Some err \<Rightarrow>
                 if exit_received env then [SendExit (ExitEvent member err)] else [])
      | WaitFirst err \<Rightarrow>
          if \<not> entrance_received env then []
          else SendEntrance (EntranceEvent member proc) #
            (if exit_received env then [SendExit (ExitEvent member err)] else [])
      | NeitherFires \<Rightarrow> [])"

fun isEntrance :: "emitted \<Rightarrow> bool" where
  "isEntrance (SendEntrance e) = True"
| "isEntrance (SendExit e) = False"

section \<open>The dynamic group (dynamic\_group.go)\<close>

text \<open>
  The group's client is not part of the sources at hand; every call on it
  (\<^verbatim>\<open>Close\<close>, \<^verbatim>\<open>broadcastEntrance\<close>, \<^verbatim>\<open>broadcastExit\<close>, \<^verbatim>\<open>closeEntranceBroadcaster\<close>,
  \<^verbatim>\<open>closeBroadcasters\<close>) is recorded as an action. The event buffer size of
  \<open>NewDynamic\<close> goes to the client only.
\<close>

record dynamicGroup =
  group_ordered :: bool
  group_signal :: "signal option"
  poolSize :: int

definition NewDynamic :: "signal option \<Rightarrow> int \<Rightarrow> int \<Rightarrow> bool \<Rightarrow> dynamicGroup" where
  "NewDynamic sig maxCapacity eventBufferSize ord =
     \<lparr>group_ordered = ord, group_signal = sig, poolSize = maxCapacity\<rparr>"

text \<open>
  The local variables of \<open>Run\<close>. \<open>procs\<close> is the local \<^verbatim>\<open>processes\<close>. The three
  channel variables that the loop sets to nil are booleans: \<open>True\<close> while the variable
  holds its channel, \<open>False\<close> once it is nil, when its \<^verbatim>\<open>select\<close> case can no longer be
  taken. \<open>effects\<close> collects the actions.
\<close>

record runState =
  procs :: processSet
  insertEvents :: bool
  closeNotifier :: bool
  entranceEvents :: bool
  invoking :: int
  effects :: "action list"

definition Run_start :: "dynamicGroup \<Rightarrow> runState" where
  "Run_start p =
     \<lparr>procs = newProcessSet (group_ordered p), insertEvents = True, closeNotifier = True,
      entranceEvents = True, invoking = 0, effects = []\<rparr>"

text \<open>
  One turn of the \<^verbatim>\<open>for { select { ... } }\<close> loop: the case taken, with what was
  received. \<open>RecvInsertClosed\<close> is the receive from the insert channel with
  \<^verbatim>\<open>ok = false\<close>.
\<close>

datatype select_case =
    RecvSignals "signal option"
  | RecvCloseNotifier
  | RecvInsert Member
  | RecvInsertClosed
  | RecvEntrance EntranceEvent
  | RecvExit ExitEvent

text \<open>
  The loop goes on (\<open>Next\<close>), \<open>Run\<close> returns (\<open>Returned\<close>), \<open>Add\<close> panics
  (\<open>Panicked\<close>), or the case cannot be taken in this state because its channel variable
  is nil (\<open>Disabled\<close>).
\<close>

datatype 'a turn = Next 'a | Returned 'a | Panicked panic | Disabled

fun Run_body :: "dynamicGroup \<Rightarrow> runState \<Rightarrow> select_case \<Rightarrow> runState turn" where
  "Run_body p s (RecvSignals sig) =
     (case Signal (procs s) sig of
        (ps, acts) \<Rightarrow> Next (s\<lparr>procs := ps, effects := effects s @ acts @ [ClientClose]\<rparr>))"
| "Run_body p s RecvCloseNotifier =
     (if \<not> closeNotifier s then Disabled
      else if Length (procs s) = 0
        then Returned (s\<lparr>closeNotifier := False, insertEvents := False,
                         effects := effects s @ [CloseBroadcasters]\<rparr>)
      else if invoking s = 0
        then Next (s\<lparr>closeNotifier := False, insertEvents := False,
                     effects := effects s @ [CloseEntranceBroadcaster]\<rparr>)
      else Next (s\<lparr>closeNotifier := False, insertEvents := False\<rparr>))"
| "Run_body p s (RecvInsert newMember) =
     (if \<not> insertEvents s then Disabled
      else case Add (procs s) (Name newMember) (Background newMember) of
        Inl e \<Rightarrow> Panicked e
      | Inr ps \<Rightarrow>
          Next (s\<lparr>procs := ps,
                  insertEvents := (if Length ps = poolSize p then False else insertEvents s),
                  invoking := invoking s + 1,
                  effects := effects s @ [GoWaitForEvents newMember (Background newMember)]\<rparr>))"
| "Run_body p s RecvInsertClosed =
     (if \<not> insertEvents s then Disabled
      else Next (s\<lparr>insertEvents := False, effects := effects s @ [ClientClose]\<rparr>))"
| "Run_body p s (RecvEntrance entranceEvent) =
     (if \<not> entranceEvents s then Disabled
      else if \<not> closeNotifier s \<and> invoking s - 1 = 0
        then Next (s\<lparr>invoking := invoking s - 1, entranceEvents := False,
                     effects := effects s @
                       [BroadcastEntrance entranceEvent, CloseEntranceBroadcaster]\<rparr>)
      else Next (s\<lparr>invoking := invoking s - 1,
                   effects := effects s @ [BroadcastEntrance entranceEvent]\<rparr>))"
| "Run_body p s (RecvExit exitEvent) =
     (let s1 = s\<lparr>procs := Remove (procs s) (Name (ExitMember exitEvent)),
                 effects := effects s @ [BroadcastExit exitEvent]\<rparr>;
          s2 = (if \<not> Signaled (procs s1) \<and> group_signal p \<noteq> None
                then (case Signal (procs s1) (group_signal p) of
                        (ps, acts) \<Rightarrow>
                          s1\<lparr>procs := ps, insertEvents := False,
                             effects := effects s1 @ acts @ [ClientClose]\<rparr>)
                else s1)
      in if Complete (procs s2) \<or> (Length (procs s2) = 0 \<and> \<not> insertEvents s2)
         then Returned (s2\<lparr>effects := effects s2 @ [CloseBroadcasters]\<rparr>)
         else if \<not> Signaled (procs s2) then Next (s2\<lparr>insertEvents := True\<rparr>)
         else Next s2)"

text \<open>
  The loop together with the observers it has started. An observer is the member, its
  process and whether its entrance has been received; it sends its entrance first and
  its exit afterwards (\<open>waitForEvents\<close>), and the loop can only receive on its entrance
  and exit channels what an observer is sending. The names in the process set are
  pairwise different, so an observer is found by its member's name.
\<close>

record system =
  engine :: runState
  observers :: "(Member \<times> Process \<times> bool) list"

datatype event =
    Signals "signal option"
  | CloseNotified
  | Insert Member
  | InsertClosed
  | Entrance string
  | Exit string "error option"

definition system_start :: "dynamicGroup \<Rightarrow> system" where
  "system_start p = \<lparr>engine = Run_start p, observers = []\<rparr>"

definition withEngine ::
  "system \<Rightarrow> ((Member \<times> Process \<times> bool) list) \<Rightarrow> runState turn \<Rightarrow> system turn" where
  "withEngine st obs r =
     (case r of
        Next s \<Rightarrow> Next \<lparr>engine = s, observers = obs\<rparr>
      | Returned s \<Rightarrow> Returned \<lparr>engine = s, observers = obs\<rparr>
      | Panicked e \<Rightarrow> Panicked e
      | Disabled \<Rightarrow> Disabled)"

fun system_step :: "dynamicGroup \<Rightarrow> system \<Rightarrow> event \<Rightarrow> system turn" where
  "system_step p st (Signals sig) =
     withEngine st (observers st) (Run_body p (engine st) (RecvSignals sig))"
| "system_step p st CloseNotified =
     withEngine st (observers st) (Run_body p (engine st) RecvCloseNotifier)"
| "system_step p st (Insert m) =
     withEngine st (observers st @ [(m, Background m, False)])
       (Run_body p (engine st) (RecvInsert m))"
| "system_step p st InsertClosed =
     withEngine st (observers st) (Run_body p (engine st) RecvInsertClosed)"
| "system_step p st (Entrance name) =
     (case find (\<lambda>(m, pr, sent). Name m = name \<and> \<not> sent) (observers st) of
        None \<Rightarrow> Disabled
      | Some (m, pr, sent) \<Rightarrow>
          withEngine st
            (map (\<lambda>(m', pr', sent'). (m', pr', sent' \<or> Name m' = name)) (observers st))
            (Run_body p (engine st) (RecvEntrance (EntranceEvent m pr))))"
| "system_step p st (Exit name err) =
     (case find (\<lambda>(m, pr, sent). Name m = name \<and> sent) (observers st) of
        None \<Rightarrow> Disabled
      | Some (m, pr, sent) \<Rightarrow>
          withEngine st
            (filter (\<lambda>(m', pr', sent'). Name m' \<noteq> name) (observers st))
            (Run_body p (engine st) (RecvExit (ExitEvent m err))))"

text \<open>
  A run is the list of cases the loop takes, in order; it stops at the first turn that
  is not \<open>Next\<close>.
\<close>

fun system_run :: "dynamicGroup \<Rightarrow> system \<Rightarrow> event list \<Rightarrow> system turn" where
  "system_run p st [] = Next st"
| "system_run p st (e # es) =
     (case system_step p st e of
        Next st' \<Rightarrow> system_run p st' es
      | r \<Rightarrow> r)"

definition stateOf :: "system turn \<Rightarrow> system option" where
  "stateOf r = (case r of Next st \<Rightarrow> Some st | Returned st \<Rightarrow> Some st | _ \<Rightarrow> None)"

definition memberNames :: "system turn \<Rightarrow> string list option" where
  "memberNames r = map_option (\<lambda>st. map fst (processes (procs (engine st)))) (stateOf r)"

section \<open>Invariants of the dynamic group\<close>

text \<open>
  The names in the process set are those of the live observers, in the same order, and
  no name occurs twice.
\<close>

definition names_agree :: "system \<Rightarrow> bool" where
  "names_agree st =
     (map fst (processes (procs (engine st))) = map (\<lambda>ob. Name (fst ob)) (observers st)
      \<and> distinct (map fst (processes (procs (engine st)))))"

text \<open>
  The capacity invariant: the set holds at most \<open>poolSize\<close> members, and while the
  insert channel is held there is room for one more.
\<close>

definition within_capacity :: "dynamicGroup \<Rightarrow> system \<Rightarrow> bool" where
  "within_capacity p st =
     (Length (procs (engine st)) \<le> poolSize p
      \<and> (insertEvents (engine st) \<longrightarrow> Length (procs (engine st)) < poolSize p))"

section \<open>Channels\<close>

text \<open>
  A Go channel, as far as the broadcaster uses it: its capacity, the values buffered in
  it, the values its receiver has taken so far, the number of receivers blocked on it,
  and whether it is closed. A send hands its value to a blocked receiver if there is
  one, buffers it if there is room, and blocks otherwise; a send on a closed channel
  and a second close panic. An operation that would block is the result \<open>Blocked\<close>:
  it does not complete in this state.
\<close>

record 'a chan =
  cap :: nat
  queue :: "'a list"
  received :: "'a list"
  waiting :: nat
  closed :: bool

datatype chan_error = Blocked | SendOnClosedChannel | CloseOfClosedChannel | NoSuchChannel

definition chan_send :: "'a chan \<Rightarrow> 'a \<Rightarrow> chan_error + 'a chan" where
  "chan_send c x =
     (if closed c then Inl SendOnClosedChannel
      else if 0 < waiting c
        then Inr (c\<lparr>received := received c @ [x], waiting := waiting c - 1\<rparr>)
      else if length (queue c) < cap c then Inr (c\<lparr>queue := queue c @ [x]\<rparr>)
      else Inl Blocked)"

definition chan_close :: "'a chan \<Rightarrow> chan_error + 'a chan" where
  "chan_close c =
     (if closed c then Inl CloseOfClosedChannel else Inr (c\<lparr>closed := True, waiting := 0\<rparr>))"

text \<open>
  A receive takes the eldest buffered value; on an empty closed channel it returns at
  once with the zero value and changes nothing; on an empty open channel the receiver
  blocks until a send hands it a value.
\<close>

definition chan_recv :: "'a chan \<Rightarrow> 'a chan" where
  "chan_recv c =
     (case queue c of
        x # xs \<Rightarrow> c\<lparr>queue := xs, received := received c @ [x]\<rparr>
      | [] \<Rightarrow> if closed c then c else c\<lparr>waiting := waiting c + 1\<rparr>)"

text \<open>What the receiver of a channel gets, in order: what it has taken, then what is buffered.\<close>

definition stream :: "'a chan \<Rightarrow> 'a list" where
  "stream c = received c @ queue c"

section \<open>The sliding buffer\<close>

text \<open>
  Modelled from the spec: the sliding buffer (\<^verbatim>\<open>slidingBuffer\<close>, \<^verbatim>\<open>newSlidingBuffer\<close>,
  \<^verbatim>\<open>Append\<close>, \<^verbatim>\<open>Range\<close>), whose file is not among the sources. The spec: a bounded queue
  of the most recent B items; an append beyond B drops the oldest; iteration goes over
  the retained items in insertion order; capacity zero is legal and retains nothing.
  \<open>Range_buffer\<close> is \<^verbatim>\<open>Range\<close>: the list of items the callback is called on, in
  order.
\<close>

record 'a slidingBuffer =
  items :: "'a list"
  capacity :: nat

definition newSlidingBuffer :: "nat \<Rightarrow> 'a slidingBuffer" where
  "newSlidingBuffer n = \<lparr>items = [], capacity = n\<rparr>"

definition Append :: "'a slidingBuffer \<Rightarrow> 'a \<Rightarrow> 'a slidingBuffer" where
  "Append b x = b\<lparr>items := drop (Suc (length (items b)) - capacity b) (items b @ [x])\<rparr>"

definition Range_buffer :: "'a slidingBuffer \<Rightarrow> 'a list" where
  "Range_buffer b = items b"

section \<open>The exit event broadcaster (exit\_events.go)\<close>

text \<open>
  The listener channels are shared between the broadcaster and the listeners, so they
  live in a store (\<open>heap\<close>, the channels made so far) and are named by their position in
  it. \<open>channels\<close> is the slice of the struct: \<open>None\<close> is the nil slice. The buffer size
  is a natural number: with a negative size \<^verbatim>\<open>make\<close> panics. The mutex makes each
  operation atomic; an operation that blocks inside the lock is the result \<open>Blocked\<close>.
\<close>

record exitEventBroadcaster =
  channels :: "nat list option"
  buffer :: "ExitEvent slidingBuffer"
  bufferSize :: nat
  heap :: "ExitEvent chan list"

definition newExitEventChannel :: "nat \<Rightarrow> ExitEvent chan" where
  "newExitEventChannel n = \<lparr>cap = n, queue = [], received = [], waiting = 0, closed = False\<rparr>"

definition newExitEventBroadcaster :: "nat \<Rightarrow> exitEventBroadcaster" where
  "newExitEventBroadcaster n =
     \<lparr>channels = Some [], buffer = newSlidingBuffer n, bufferSize = n, heap = []\<rparr>"

text \<open>The callback of \<open>Attach\<close>, \<^verbatim>\<open>channel <- event\<close>, over the buffered events.\<close>

fun sendAll :: "'a chan \<Rightarrow> 'a list \<Rightarrow> chan_error + 'a chan" where
  "sendAll c [] = Inr c"
| "sendAll c (x # xs) =
     (case chan_send c x of Inl e \<Rightarrow> Inl e | Inr c' \<Rightarrow> sendAll c' xs)"

definition Attach :: "exitEventBroadcaster \<Rightarrow> chan_error + (exitEventBroadcaster \<times> nat)" where
  "Attach b =
     (case sendAll (newExitEventChannel (bufferSize b)) (Range_buffer (buffer b)) of
        Inl e \<Rightarrow> Inl e
      | Inr channel \<Rightarrow>
          (case channels b of
             Some cs \<Rightarrow>
               Inr (b\<lparr>channels := Some (cs @ [length (heap b)]), heap := heap b @ [channel]\<rparr>,
                    length (heap b))
           | None \<Rightarrow>
               (case chan_close channel of
                  Inl e \<Rightarrow> Inl e
                | Inr channel' \<Rightarrow> Inr (b\<lparr>heap := heap b @ [channel']\<rparr>, length (heap b)))))"

text \<open>The loop of \<open>Broadcast\<close>: \<^verbatim>\<open>exitChan <- exit\<close> for each channel of the slice.\<close>

fun sendEach :: "'a chan list \<Rightarrow> nat list \<Rightarrow> 'a \<Rightarrow> chan_error + 'a chan list" where
  "sendEach h [] x = Inr h"
| "sendEach h (c # cs) x =
     (if c < length h
      then (case chan_send (h ! c) x of
              Inl e \<Rightarrow> Inl e
            | Inr ch \<Rightarrow> sendEach (h[c := ch]) cs x)
      else Inl NoSuchChannel)"

definition Broadcast :: "exitEventBroadcaster \<Rightarrow> ExitEvent \<Rightarrow> chan_error + exitEventBroadcaster" where
  "Broadcast b exit =
     (let b1 = b\<lparr>buffer := Append (buffer b) exit\<rparr>
      in case sendEach (heap b1) (case channels b1 of Some cs \<Rightarrow> cs | None \<Rightarrow> []) exit of
           Inl e \<Rightarrow> Inl e
         | Inr h \<Rightarrow> Inr (b1\<lparr>heap := h\<rparr>))"

text \<open>The loop of \<open>Close\<close>: \<^verbatim>\<open>close(channel)\<close> for each channel of the slice.\<close>

fun closeEach :: "'a chan list \<Rightarrow> nat list \<Rightarrow> chan_error + 'a chan list" where
  "closeEach h [] = Inr h"
| "closeEach h (c # cs) =
     (if c < length h
      then (case chan_close (h ! c) of
              Inl e \<Rightarrow> Inl e
            | Inr ch \<Rightarrow> closeEach (h[c := ch]) cs)
      else Inl NoSuchChannel)"

definition Close :: "exitEventBroadcaster \<Rightarrow> chan_error + exitEventBroadcaster" where
  "Close b =
     (case closeEach (heap b) (case channels b of Some cs \<Rightarrow> cs | None \<Rightarrow> []) of
        Inl e \<Rightarrow> Inl e
      | Inr h \<Rightarrow> Inr (b\<lparr>channels := None, heap := h\<rparr>))"

text \<open>A listener receives from the channel it was given.\<close>

definition Receive :: "exitEventBroadcaster \<Rightarrow> nat \<Rightarrow> chan_error + exitEventBroadcaster" where
  "Receive b c =
     (if c < length (heap b) then Inr (b\<lparr>heap := (heap b)[c := chan_recv (heap b ! c)]\<rparr>)
      else Inl NoSuchChannel)"

text \<open>
  The life of a broadcaster is a list of completed operations, by the engine and by the
  listeners.
\<close>

datatype operation = OpAttach | OpBroadcast ExitEvent | OpClose | OpReceive nat

definition perform :: "exitEventBroadcaster \<Rightarrow> operation \<Rightarrow> chan_error + exitEventBroadcaster" where
  "perform b oper =
     (case oper of
        OpAttach \<Rightarrow> (case Attach b of Inl e \<Rightarrow> Inl e | Inr (b', c) \<Rightarrow> Inr b')
      | OpBroadcast e \<Rightarrow> Broadcast b e
      | OpClose \<Rightarrow> Close b
      | OpReceive c \<Rightarrow> Receive b c)"

fun performAll :: "exitEventBroadcaster \<Rightarrow> operation list \<Rightarrow> chan_error + exitEventBroadcaster" where
  "performAll b [] = Inr b"
| "performAll b (oper # opers) =
     (case perform b oper of Inl e \<Rightarrow> Inl e | Inr b' \<Rightarrow> performAll b' opers)"

fun broadcasts :: "operation list \<Rightarrow> ExitEvent list" where
  "broadcasts [] = []"
| "broadcasts (OpBroadcast e # opers) = e # broadcasts opers"
| "broadcasts (oper # opers) = broadcasts opers"

text \<open>The last \<open>n\<close> elements of a list.\<close>

definition lastN :: "nat \<Rightarrow> 'a list \<Rightarrow> 'a list" where
  "lastN n xs = drop (length xs - n) xs"

section \<open>Invariants of the broadcaster\<close>

text \<open>
  A channel with a blocked receiver has nothing buffered. In a broadcaster, the buffer
  has the capacity it was made with and holds no more than that; the channels of the
  slice are pairwise different, allocated and open.
\<close>

definition chan_ok :: "'a chan \<Rightarrow> bool" where
  "chan_ok c = (0 < waiting c \<longrightarrow> queue c = [])"

definition broadcaster_ok :: "exitEventBroadcaster \<Rightarrow> bool" where
  "broadcaster_ok b =
     (capacity (buffer b) = bufferSize b
      \<and> length (items (buffer b)) \<le> bufferSize b
      \<and> (\<forall>c < length (heap b). chan_ok (heap b ! c))
      \<and> (\<forall>cs. channels b = Some cs \<longrightarrow>
            distinct cs \<and> (\<forall>c \<in> set cs. c < length (heap b) \<and> \<not> closed (heap b ! c))))"

text \<open>A channel is registered while it is in the slice of the broadcaster.\<close>

definition registered :: "exitEventBroadcaster \<Rightarrow> nat \<Rightarrow> bool" where
  "registered b c = (case channels b of Some cs \<Rightarrow> c \<in> set cs | None \<Rightarrow> False)"

section \<open>The parallel group with its own pool (parallelGroup)\<close>

text \<open>
  This group starts its members itself and multiplexes their wait and ready channels
  with \<^verbatim>\<open>reflect.Select\<close>. What each \<^verbatim>\<open>Select\<close> call returns is given from outside,
  as a list of selections consumed in order; when the list is used up the call is still
  blocked (\<open>Blocking\<close>), and a selection that the call cannot make (an index out of
  range, a case whose channel has been zeroed) is \<open>NotSelectable\<close>. An
  \<^verbatim>\<open>ErrorTrace\<close> is a slice of exit events: \<open>None\<close> is the nil slice. The pool is the
  map from names to ready processes.
\<close>

datatype 'a result = Finished 'a | Blocking | NotSelectable

type_synonym ErrorTrace = "ExitEvent list option"

record parallelGroup =
  terminationSignal :: "signal option"
  pool :: "(string \<times> Process) list"
  members :: "Member list"

definition NewParallel :: "signal option \<Rightarrow> Member list \<Rightarrow> parallelGroup" where
  "NewParallel sig ms = \<lparr>terminationSignal = sig, pool = [], members = ms\<rparr>"

definition setPool :: "string \<Rightarrow> Process \<Rightarrow> (string \<times> Process) list \<Rightarrow> (string \<times> Process) list" where
  "setPool name proc pl = filter (\<lambda>e. fst e \<noteq> name) pl @ [(name, proc)]"

text \<open>
  The selections of \<open>parallelStart\<close>: the signals channel (case \<open>2 * numMembers\<close>), the
  wait channel of member \<open>i\<close> (case \<open>2 * i\<close>) with the value received, or its ready
  channel (case \<open>2 * i + 1\<close>). What comes from the signals channel is a signal: the
  type assertion \<^verbatim>\<open>recv.Interface().(os.Signal)\<close> has no second result and would
  panic on nil.
\<close>

datatype start_selection =
    SignalChosen signal
  | WaitChosen nat "error option"
  | ReadyChosen nat

text \<open>
  The loop of \<open>parallelStart\<close>. \<open>zeroed\<close> are the members whose ready case has been
  zeroed; \<open>numReady\<close> is their number.
\<close>

fun startLoop ::
  "parallelGroup \<Rightarrow> nat list \<Rightarrow> start_selection list
    \<Rightarrow> (signal option \<times> ErrorTrace \<times> parallelGroup) result" where
  "startLoop g zeroed [] = Blocking"
| "startLoop g zeroed (SignalChosen sig # sels) = Finished (Some sig, None, g)"
| "startLoop g zeroed (WaitChosen i recvError # sels) =
     (if i < length (members g)
      then Finished (None, Some [ExitEvent (members g ! i) recvError], g)
      else NotSelectable)"
| "startLoop g zeroed (ReadyChosen i # sels) =
     (if i < length (members g) \<and> i \<notin> set zeroed
      then (let g' = g\<lparr>pool := setPool (Name (members g ! i)) (Background (members g ! i))
                                    (pool g)\<rparr>
            in if length zeroed + 1 = length (members g)
               then Finished (None, None, g')
               else startLoop g' (i # zeroed) sels)
      else NotSelectable)"

definition parallelStart ::
  "parallelGroup \<Rightarrow> start_selection list
    \<Rightarrow> (signal option \<times> ErrorTrace \<times> parallelGroup) result" where
  "parallelStart g sels = startLoop g [] sels"

text \<open>
  \<open>waitForSignal\<close> makes one selection: the signals channel, or the wait channel of a
  process of the pool (there must be one).
\<close>

datatype wait_selection = SignalArrived signal | MemberExited

definition waitForSignal :: "parallelGroup \<Rightarrow> wait_selection list \<Rightarrow> signal option result" where
  "waitForSignal g sels =
     (case sels of
        [] \<Rightarrow> Blocking
      | SignalArrived sig # _ \<Rightarrow> Finished (Some sig)
      | MemberExited # _ \<Rightarrow> if pool g = [] then NotSelectable else Finished (terminationSignal g))"

text \<open>
  \<open>stop\<close>. First the members that are in the pool are signalled, in member order, and
  become the live members. Then the loop collects one exit per live member; a selection
  is the index of the live member and the value received from its wait channel. The
  body of the loop runs before its exit test, so with no live member the first
  \<^verbatim>\<open>Select\<close>, over no case at all, blocks for good.
\<close>

definition liveMembers :: "parallelGroup \<Rightarrow> Member list" where
  "liveMembers g = filter (\<lambda>m. map_of (pool g) (Name m) \<noteq> None) (members g)"

definition stopSignals :: "parallelGroup \<Rightarrow> signal option \<Rightarrow> action list" where
  "stopSignals g sig =
     concat (map (\<lambda>m. case map_of (pool g) (Name m) of
                         Some proc \<Rightarrow> [ProcessSignal proc sig, ProcessWait proc]
                       | None \<Rightarrow> []) (members g))"

fun stopLoop ::
  "Member list \<Rightarrow> nat list \<Rightarrow> ExitEvent list \<Rightarrow> bool \<Rightarrow> (nat \<times> error option) list
    \<Rightarrow> (ExitEvent list \<times> bool) result" where
  "stopLoop live zeroed errTrace errOccurred [] = Blocking"
| "stopLoop live zeroed errTrace errOccurred ((chosen, recvError) # sels) =
     (if chosen < length live \<and> chosen \<notin> set zeroed
      then (let errTrace' = errTrace @ [ExitEvent (live ! chosen) recvError];
                errOccurred' = (errOccurred \<or> recvError \<noteq> None)
            in if length zeroed + 1 = length live
               then Finished (errTrace', errOccurred')
               else stopLoop live (chosen # zeroed) errTrace' errOccurred' sels)
      else NotSelectable)"

definition stop ::
  "parallelGroup \<Rightarrow> signal option \<Rightarrow> ErrorTrace \<Rightarrow> (nat \<times> error option) list
    \<Rightarrow> (ErrorTrace \<times> action list) result" where
  "stop g sig errTrace sels =
     (let trace0 = (case errTrace of None \<Rightarrow> [] | Some t \<Rightarrow> t);
          errOccurred = (0 < length trace0)
      in case stopLoop (liveMembers g) [] trace0 errOccurred sels of
           Finished (t, occurred) \<Rightarrow>
             Finished (if occurred then Some t else None, stopSignals g sig)
         | Blocking \<Rightarrow> Blocking
         | NotSelectable \<Rightarrow> NotSelectable)"

text \<open>
  A value of Go's interface type \<^verbatim>\<open>error\<close>, as \<open>Run\<close> returns it: nil, the error of
  \<^verbatim>\<open>validate\<close>, or an \<^verbatim>\<open>ErrorTrace\<close>. An interface value that holds an
  \<^verbatim>\<open>ErrorTrace\<close> is not nil, whether the slice in it is nil or not.
\<close>

datatype error_value = NilError | ValidationError error | TraceError ErrorTrace

text \<open>
  \<open>Run\<close>. The result of \<^verbatim>\<open>Members.Validate\<close> (not among the sources) is an argument.
  \<open>Run\<close> returns the validation error, or converts the \<^verbatim>\<open>ErrorTrace\<close> that \<open>stop\<close>
  returns to \<^verbatim>\<open>error\<close> (\<^verbatim>\<open>return g.stop(...)\<close>).
\<close>

definition parallelRun ::
  "parallelGroup \<Rightarrow> error option \<Rightarrow> start_selection list \<Rightarrow> wait_selection list
    \<Rightarrow> (nat \<times> error option) list \<Rightarrow> error_value result" where
  "parallelRun g validated startSels waitSels stopSels =
     (case validated of
        Some err \<Rightarrow> Finished (ValidationError err)
      | None \<Rightarrow>
          (case parallelStart g startSels of
             Blocking \<Rightarrow> Blocking
           | NotSelectable \<Rightarrow> NotSelectable
           | Finished (sig, errTrace, g') \<Rightarrow>
               let stopWith = (\<lambda>s. case stop g' s errTrace stopSels of
                                      Finished (t, acts) \<Rightarrow> Finished (TraceError t)
                                    | Blocking \<Rightarrow> Blocking
                                    | NotSelectable \<Rightarrow> NotSelectable)
               in if errTrace \<noteq> None then stopWith (terminationSignal g')
                  else if sig \<noteq> None then stopWith sig
                  else (case waitForSignal g' waitSels of
                          Finished sig' \<Rightarrow> stopWith sig'
                        | Blocking \<Rightarrow> Blocking
                        | NotSelectable \<Rightarrow> NotSelectable)))"

section \<open>The ordered controller\<close>

text \<open>
  The startup loops of the two versions of the ordered group. What the controller meets
  in each round of the loop is given from outside: the case its \<^verbatim>\<open>select\<close> takes, and
  whether the receive from the entrance listener that follows a send completes. When the
  observations are used up the controller is still blocked. The result is what the
  controller has done, in order, and how the loop ended.
\<close>

datatype ctl_action = SendInsert Member | RecvEntranceEvent | CloseClient

datatype startup = StartupDone | AbortedOnClose | AbortedOnExit "ExitEvent list" | StillWaiting

text \<open>
  \<open>orderedStart\<close> (the version with the shutdown channel): the \<^verbatim>\<open>select\<close> has the send
  on the inserter and the close notifier; after the loop the client is closed.
\<close>

datatype start_select = StartSent | StartClosed

fun orderedStart :: "Member list \<Rightarrow> (start_select \<times> bool) list \<Rightarrow> ctl_action list \<times> startup" where
  "orderedStart [] obs = ([CloseClient], StartupDone)"
| "orderedStart (member # ms) [] = ([], StillWaiting)"
| "orderedStart (member # ms) ((StartClosed, entered) # obs) = ([], AbortedOnClose)"
| "orderedStart (member # ms) ((StartSent, False) # obs) = ([SendInsert member], StillWaiting)"
| "orderedStart (member # ms) ((StartSent, True) # obs) =
     (case orderedStart ms obs of
        (acts, st) \<Rightarrow> (SendInsert member # RecvEntranceEvent # acts, st))"

text \<open>
  The loop of \<open>orderedStrategy\<close> (static\_strategies.go): its \<^verbatim>\<open>select\<close> has a third
  case, the exit listener; an exit received there is appended to the exit trace and the
  function returns through \<^verbatim>\<open>traceExitEvents\<close>. \<open>AbortedOnExit\<close> carries that trace.
  After the loop the client is closed.
\<close>

datatype strategy_select = StrategySent | StrategyExit ExitEvent | StrategyClosed

fun orderedStrategy ::
  "Member list \<Rightarrow> (strategy_select \<times> bool) list \<Rightarrow> ctl_action list \<times> startup" where
  "orderedStrategy [] obs = ([CloseClient], StartupDone)"
| "orderedStrategy (member # ms) [] = ([], StillWaiting)"
| "orderedStrategy (member # ms) ((StrategyExit exit, entered) # obs) =
     ([], AbortedOnExit ([] @ [exit]))"
| "orderedStrategy (member # ms) ((StrategyClosed, entered) # obs) = ([], AbortedOnClose)"
| "orderedStrategy (member # ms) ((StrategySent, False) # obs) =
     ([SendInsert member], StillWaiting)"
| "orderedStrategy (member # ms) ((StrategySent, True) # obs) =
     (case orderedStrategy ms obs of
        (acts, st) \<Rightarrow> (SendInsert member # RecvEntranceEvent # acts, st))"

text \<open>The sends and waits of a startup that runs to its end, for comparison.\<close>

definition alternation :: "Member list \<Rightarrow> ctl_action list" where
  "alternation ms = concat (map (\<lambda>m. [SendInsert m, RecvEntranceEvent]) ms)"

section \<open>The serial controller (serialInit)\<close>

text \<open>
  \<open>serialInit\<close> as a machine. \<open>SerialSelect ms\<close>: at the \<^verbatim>\<open>select\<close> for the first
  member of \<open>ms\<close>, the members still to be sent (with \<open>ms\<close> empty the loop is over and
  the function returns); \<open>SerialAwaitExit ms\<close>: a member has been sent and the function
  is blocked in \<^verbatim>\<open>exit := <-exitEvents\<close>, with \<open>ms\<close> still to come;
  \<open>SerialReturned\<close>: returned from inside the loop. A step takes what the blocked
  operation yields: the send is taken by the engine, the close notifier fires, or an
  exit event arrives.
\<close>

datatype serial_pc = SerialSelect "Member list" | SerialAwaitExit "Member list" | SerialReturned

datatype serial_obs = SerialSent | SerialClosed | SerialExit ExitEvent

fun serialInit_step :: "serial_pc \<Rightarrow> serial_obs \<Rightarrow> serial_pc option" where
  "serialInit_step (SerialSelect (member # ms)) SerialSent = Some (SerialAwaitExit ms)"
| "serialInit_step (SerialSelect (member # ms)) SerialClosed = Some SerialReturned"
| "serialInit_step (SerialAwaitExit ms) (SerialExit exit) =
     Some (if Err exit \<noteq> None then SerialReturned else SerialSelect ms)"
| "serialInit_step pc ob = None"

section \<open>The serial group: controller and engine together\<close>

text \<open>What the engine has asked of its client and started, read off its actions.\<close>

fun exitLog :: "action list \<Rightarrow> ExitEvent list" where
  "exitLog [] = []"
| "exitLog (BroadcastExit e # acts) = e # exitLog acts"
| "exitLog (a # acts) = exitLog acts"

fun entranceLog :: "action list \<Rightarrow> EntranceEvent list" where
  "entranceLog [] = []"
| "entranceLog (BroadcastEntrance e # acts) = e # entranceLog acts"
| "entranceLog (a # acts) = entranceLog acts"

fun started :: "action list \<Rightarrow> Member list" where
  "started [] = []"
| "started (GoWaitForEvents m pr # acts) = m # started acts"
| "started (a # acts) = started acts"

text \<open>
  Modelled from the spec: the client between \<open>serialInit\<close> and the loop of \<open>Run\<close>
  (the client's file is not among the sources). A serial group is a dynamic group
  driven by \<open>serialInit\<close> through the client. The inserter is one unbuffered channel, so a send of the controller and the insert case of the loop
  happen together (\<open>Send\<close>), and the controller is the only sender. The exit listener
  of the controller, attached before the first send, yields the exit events in the order
  in which the loop broadcasts them; \<open>taken\<close> counts those the controller has received.
  Once the loop has returned (\<open>returned\<close>) the broadcasters are closed, and a receive
  from the drained exit listener yields the zero exit event. Anybody holding the client
  may close it at any time, so the close notifier may fire at any time (\<open>SeeClosed\<close>
  for the controller, \<open>Loop CloseNotified\<close> for the loop). \<open>Loop\<close> is any other turn
  of the loop.
\<close>

record serial =
  sys :: system
  ctl :: serial_pc
  taken :: nat
  returned :: bool

datatype serial_event = Loop event | Send | SeeClosed | TakeExit

definition serial_start :: "dynamicGroup \<Rightarrow> Member list \<Rightarrow> serial" where
  "serial_start p ms =
     \<lparr>sys = system_start p, ctl = SerialSelect ms, taken = 0, returned = False\<rparr>"

definition loopTurn :: "dynamicGroup \<Rightarrow> serial \<Rightarrow> event \<Rightarrow> serial_pc \<Rightarrow> serial option" where
  "loopTurn p st ev pc =
     (if returned st then None
      else case system_step p (sys st) ev of
             Next s \<Rightarrow> Some (st\<lparr>sys := s, ctl := pc\<rparr>)
           | Returned s \<Rightarrow> Some (st\<lparr>sys := s, ctl := pc, returned := True\<rparr>)
           | Panicked e \<Rightarrow> None
           | Disabled \<Rightarrow> None)"

fun serial_step :: "dynamicGroup \<Rightarrow> serial \<Rightarrow> serial_event \<Rightarrow> serial option" where
  "serial_step p st (Loop (Insert m)) = None"
| "serial_step p st (Loop ev) = loopTurn p st ev (ctl st)"
| "serial_step p st Send =
     (case ctl st of
        SerialSelect (member # ms) \<Rightarrow>
          (case serialInit_step (ctl st) SerialSent of
             Some pc \<Rightarrow> loopTurn p st (Insert member) pc
           | None \<Rightarrow> None)
      | _ \<Rightarrow> None)"
| "serial_step p st SeeClosed =
     map_option (\<lambda>pc. st\<lparr>ctl := pc\<rparr>) (serialInit_step (ctl st) SerialClosed)"
| "serial_step p st TakeExit =
     (if taken st < length (exitLog (effects (engine (sys st))))
      then map_option (\<lambda>pc. st\<lparr>ctl := pc, taken := taken st + 1\<rparr>)
             (serialInit_step (ctl st)
                (SerialExit (exitLog (effects (engine (sys st))) ! taken st)))
      else if returned st
      then map_option (\<lambda>pc. st\<lparr>ctl := pc\<rparr>)
             (serialInit_step (ctl st) (SerialExit (ExitEvent (Member [] 0) None)))
      else None)"

fun serial_run :: "dynamicGroup \<Rightarrow> serial \<Rightarrow> serial_event list \<Rightarrow> serial option" where
  "serial_run p st [] = Some st"
| "serial_run p st (e # es) =
     (case serial_step p st e of None \<Rightarrow> None | Some st' \<Rightarrow> serial_run p st' es)"

text \<open>
  The members the loop has started, the exit events it has broadcast (the trace that the
  group's exit listeners collect) and the entrance events it has broadcast.
\<close>

definition startedMembers :: "serial \<Rightarrow> Member list" where
  "startedMembers st = started (effects (engine (sys st)))"

definition exitTrace :: "serial \<Rightarrow> ExitEvent list" where
  "exitTrace st = exitLog (effects (engine (sys st)))"

definition entrances :: "serial \<Rightarrow> EntranceEvent list" where
  "entrances st = entranceLog (effects (engine (sys st)))"

text \<open>
  Entrances are broadcast for started members only, and observers exist for started
  members only.
\<close>

definition entrances_started :: "system \<Rightarrow> bool" where
  "entrances_started st =
     (set (map EntranceMember (entranceLog (effects (engine st))))
        \<subseteq> set (started (effects (engine st)))
      \<and> fst ` set (observers st) \<subseteq> set (started (effects (engine st))))"

text \<open>
  The invariant of the serial group. \<open>ins\<close> are the members started so far, \<open>lg\<close> the
  exit events broadcast so far, \<open>t\<close> the number of them the controller has received,
  \<open>obs\<close> the live observers.
\<close>

definition logs_ok :: "Member list \<Rightarrow> Member list \<Rightarrow> ExitEvent list \<Rightarrow> nat \<Rightarrow> bool" where
  "logs_ok ms ins lg t =
     (ins = take (length ins) ms
      \<and> map ExitMember lg = take (length lg) ins
      \<and> t \<le> length lg
      \<and> (\<forall>j. Suc j < length ins \<longrightarrow> Err (lg ! j) = None \<and> j < t))"

definition ctl_ok ::
  "Member list \<Rightarrow> Member list \<Rightarrow> ExitEvent list \<Rightarrow> nat \<Rightarrow> (Member \<times> Process \<times> bool) list
    \<Rightarrow> serial_pc \<Rightarrow> bool" where
  "ctl_ok ms ins lg t obs pc =
     (case pc of
        SerialSelect rest \<Rightarrow>
          rest = drop (length ins) ms \<and> obs = [] \<and> length lg = length ins \<and> t = length ins
          \<and> (\<forall>j < length lg. Err (lg ! j) = None)
      | SerialAwaitExit rest \<Rightarrow>
          rest = drop (length ins) ms \<and> ins \<noteq> [] \<and> Suc t = length ins
          \<and> ((length lg = length ins \<and> obs = [])
              \<or> (Suc (length lg) = length ins
                  \<and> (\<exists>sent. obs = [(last ins, Background (last ins), sent)])))
      | SerialReturned \<Rightarrow> obs = [] \<and> length lg = length ins)"

definition serial_inv :: "Member list \<Rightarrow> serial \<Rightarrow> bool" where
  "serial_inv ms st =
     (names_agree (sys st)
      \<and> (returned st \<longrightarrow> observers (sys st) = [])
      \<and> logs_ok ms (started (effects (engine (sys st))))
           (exitLog (effects (engine (sys st)))) (taken st)
      \<and> ctl_ok ms (started (effects (engine (sys st))))
           (exitLog (effects (engine (sys st)))) (taken st) (observers (sys st)) (ctl st))"

section \<open>The ordered controller as a machine\<close>

text \<open>
  The startup loop of the ordered controller, one blocking operation at a time.
  \<open>OrderedSelect ms\<close>: at the \<^verbatim>\<open>select\<close> for the first member of \<open>ms\<close>, the members
  still to be sent (with \<open>ms\<close> empty the loop is over); \<open>OrderedAwaitEntrance ms\<close>: a
  member has been sent and the controller is blocked in \<^verbatim>\<open><-entranceEvents\<close>, with
  \<open>ms\<close> still to come; \<open>OrderedReturnedOnClose\<close>: returned from the loop because the
  \<^verbatim>\<open>select\<close> took the close notifier; \<open>OrderedReturnedOnExit\<close>: returned from the loop
  with the exit trace, because the \<^verbatim>\<open>select\<close> took an exit event. \<open>withExit\<close> tells
  the two versions apart: the \<^verbatim>\<open>select\<close> of \<open>orderedStrategy\<close> has the case of the exit
  listener (\<open>True\<close>), that of \<open>orderedStart\<close> has not (\<open>False\<close>). The value received
  from the entrance listener is thrown away.
\<close>

datatype ordered_pc =
    OrderedSelect "Member list"
  | OrderedAwaitEntrance "Member list"
  | OrderedReturnedOnClose
  | OrderedReturnedOnExit "ExitEvent list"

datatype ordered_obs = OrderedSent | OrderedSeesClosed | OrderedSeesExit ExitEvent | OrderedEntered

fun ordered_step :: "bool \<Rightarrow> ordered_pc \<Rightarrow> ordered_obs \<Rightarrow> ordered_pc option" where
  "ordered_step withExit (OrderedSelect (member # ms)) OrderedSent =
     Some (OrderedAwaitEntrance ms)"
| "ordered_step withExit (OrderedSelect (member # ms)) OrderedSeesClosed =
     Some OrderedReturnedOnClose"
| "ordered_step withExit (OrderedSelect (member # ms)) (OrderedSeesExit exit) =
     (if withExit then Some (OrderedReturnedOnExit ([] @ [exit])) else None)"
| "ordered_step withExit (OrderedAwaitEntrance ms) OrderedEntered = Some (OrderedSelect ms)"
| "ordered_step withExit pc ob = None"

text \<open>
  The machine and the loops above are the same controller: a round of the loop is the
  step of the \<^verbatim>\<open>select\<close>, followed by the step of the receive when the round got that
  far, and a step that the machine cannot take leaves it where it is.
\<close>

fun ordered_status :: "ordered_pc \<Rightarrow> startup" where
  "ordered_status (OrderedSelect []) = StartupDone"
| "ordered_status (OrderedSelect (member # ms)) = StillWaiting"
| "ordered_status (OrderedAwaitEntrance ms) = StillWaiting"
| "ordered_status OrderedReturnedOnClose = AbortedOnClose"
| "ordered_status (OrderedReturnedOnExit trace) = AbortedOnExit trace"

fun select_obs :: "strategy_select \<Rightarrow> ordered_obs" where
  "select_obs StrategySent = OrderedSent"
| "select_obs StrategyClosed = OrderedSeesClosed"
| "select_obs (StrategyExit exit) = OrderedSeesExit exit"

fun start_select_obs :: "start_select \<Rightarrow> ordered_obs" where
  "start_select_obs StartSent = OrderedSent"
| "start_select_obs StartClosed = OrderedSeesClosed"

definition ordered_round :: "bool \<Rightarrow> ordered_pc \<Rightarrow> ordered_obs \<times> bool \<Rightarrow> ordered_pc" where
  "ordered_round withExit pc ob =
     (case ordered_step withExit pc (fst ob) of
        None \<Rightarrow> pc
      | Some pc1 \<Rightarrow>
          if snd ob
          then (case ordered_step withExit pc1 OrderedEntered of None \<Rightarrow> pc1 | Some pc2 \<Rightarrow> pc2)
          else pc1)"

section \<open>The ordered group: controller and engine together\<close>

text \<open>
  Modelled from the spec: the client between the ordered controller and the loop of
  \<open>Run\<close>, and the entrance broadcaster (their files are not among the sources; the
  spec gives the entrance broadcaster the behaviour of the exit broadcaster). An
  ordered group is a dynamic group driven by the ordered controller through the
  client. The inserter is one unbuffered channel, so a send of the controller and the
  insert case of the loop happen together (\<open>OrderedSend\<close>), and the controller is the
  only sender. The entrance listener of the controller, attached before the first send,
  yields the entrance events in the order in which the loop broadcasts them, up to the
  moment the entrance broadcaster is closed (by \<^verbatim>\<open>closeEntranceBroadcaster\<close> or
  \<^verbatim>\<open>closeBroadcasters\<close>); a receive from the closed and drained listener returns at
  once with the zero value. \<open>got\<close> is what the receives of the controller have yielded
  so far, \<open>None\<close> for the zero value of the closed listener. The exit listener of
  \<open>orderedStrategy\<close>, attached before the first send, yields the first exit event
  broadcast, or the zero exit event once the loop has returned (\<open>oreturned\<close>) and the
  broadcasters are closed. Anybody holding the client may close it at any time, so the
  close notifier may fire at any time (\<open>OrderedSeeClosed\<close> for the controller,
  \<open>OrderedLoop CloseNotified\<close> for the loop). \<open>OrderedLoop\<close> is any other turn of the
  loop.
\<close>

definition entranceClosed :: "action list \<Rightarrow> bool" where
  "entranceClosed acts = (CloseEntranceBroadcaster \<in> set acts \<or> CloseBroadcasters \<in> set acts)"

definition entranceView :: "action list \<Rightarrow> EntranceEvent list" where
  "entranceView acts =
     entranceLog (takeWhile (\<lambda>a. a \<noteq> CloseEntranceBroadcaster \<and> a \<noteq> CloseBroadcasters) acts)"

record ordered_system =
  osys :: system
  octl :: ordered_pc
  got :: "EntranceEvent option list"
  oreturned :: bool

datatype ordered_event =
    OrderedLoop event
  | OrderedSend
  | OrderedSeeClosed
  | OrderedSeeExit
  | OrderedTakeEntrance

definition ordered_start :: "dynamicGroup \<Rightarrow> Member list \<Rightarrow> ordered_system" where
  "ordered_start p ms =
     \<lparr>osys = system_start p, octl = OrderedSelect ms, got = [], oreturned = False\<rparr>"

definition orderedTurn ::
  "dynamicGroup \<Rightarrow> ordered_system \<Rightarrow> event \<Rightarrow> ordered_pc \<Rightarrow> ordered_system option" where
  "orderedTurn p st ev pc =
     (if oreturned st then None
      else case system_step p (osys st) ev of
             Next s \<Rightarrow> Some (st\<lparr>osys := s, octl := pc\<rparr>)
           | Returned s \<Rightarrow> Some (st\<lparr>osys := s, octl := pc, oreturned := True\<rparr>)
           | Panicked e \<Rightarrow> None
           | Disabled \<Rightarrow> None)"

fun ordered_system_step ::
  "bool \<Rightarrow> dynamicGroup \<Rightarrow> ordered_system \<Rightarrow> ordered_event \<Rightarrow> ordered_system option" where
  "ordered_system_step withExit p st (OrderedLoop (Insert m)) = None"
| "ordered_system_step withExit p st (OrderedLoop ev) = orderedTurn p st ev (octl st)"
| "ordered_system_step withExit p st OrderedSend =
     (case octl st of
        OrderedSelect (member # ms) \<Rightarrow>
          (case ordered_step withExit (octl st) OrderedSent of
             Some pc \<Rightarrow> orderedTurn p st (Insert member) pc
           | None \<Rightarrow> None)
      | _ \<Rightarrow> None)"
| "ordered_system_step withExit p st OrderedSeeClosed =
     map_option (\<lambda>pc. st\<lparr>octl := pc\<rparr>) (ordered_step withExit (octl st) OrderedSeesClosed)"
| "ordered_system_step withExit p st OrderedSeeExit =
     (case exitLog (effects (engine (osys st))) of
        exit # exits \<Rightarrow>
          map_option (\<lambda>pc. st\<lparr>octl := pc\<rparr>)
            (ordered_step withExit (octl st) (OrderedSeesExit exit))
      | [] \<Rightarrow>
          if oreturned st
          then map_option (\<lambda>pc. st\<lparr>octl := pc\<rparr>)
                 (ordered_step withExit (octl st) (OrderedSeesExit (ExitEvent (Member [] 0) None)))
          else None)"
| "ordered_system_step withExit p st OrderedTakeEntrance =
     (let view = entranceView (effects (engine (osys st)));
          n = length (filter (\<lambda>g. g \<noteq> None) (got st))
      in if n < length view
         then map_option (\<lambda>pc. st\<lparr>octl := pc, got := got st @ [Some (view ! n)]\<rparr>)
                (ordered_step withExit (octl st) OrderedEntered)
         else if entranceClosed (effects (engine (osys st)))
         then map_option (\<lambda>pc. st\<lparr>octl := pc, got := got st @ [None]\<rparr>)
                (ordered_step withExit (octl st) OrderedEntered)
         else None)"

fun ordered_run ::
  "bool \<Rightarrow> dynamicGroup \<Rightarrow> ordered_system \<Rightarrow> ordered_event list \<Rightarrow> ordered_system option" where
  "ordered_run withExit p st [] = Some st"
| "ordered_run withExit p st (e # es) =
     (case ordered_system_step withExit p st e of
        None \<Rightarrow> None
      | Some st' \<Rightarrow> ordered_run withExit p st' es)"

text \<open>
  The members the loop has started, the entrance events it has broadcast, and whether
  the entrance broadcaster is still open.
\<close>

definition orderedStarted :: "ordered_system \<Rightarrow> Member list" where
  "orderedStarted st = started (effects (engine (osys st)))"

definition orderedEntrances :: "ordered_system \<Rightarrow> EntranceEvent list" where
  "orderedEntrances st = entranceLog (effects (engine (osys st)))"

definition entranceOpen :: "ordered_system \<Rightarrow> bool" where
  "entranceOpen st = (\<not> entranceClosed (effects (engine (osys st))))"

text \<open>
  The invariants of the ordered group. \<open>ins\<close> are the members started so far, \<open>elog\<close>
  the entrance events broadcast so far, \<open>gt\<close> what the controller has received, \<open>obs\<close>
  the live observers. The first holds throughout; the second while the entrance
  broadcaster is open.
\<close>

definition pending :: "(Member \<times> Process \<times> bool) list \<Rightarrow> (Member \<times> Process \<times> bool) list" where
  "pending obs = filter (\<lambda>(m, pr, sent). \<not> sent) obs"

definition sends_ok :: "Member list \<Rightarrow> Member list \<Rightarrow> nat \<Rightarrow> ordered_pc \<Rightarrow> bool" where
  "sends_ok ms ins n pc =
     (ins = take (length ins) ms
      \<and> (case pc of
           OrderedSelect rest \<Rightarrow> rest = drop (length ins) ms \<and> n = length ins
         | OrderedAwaitEntrance rest \<Rightarrow> rest = drop (length ins) ms \<and> Suc n = length ins
         | OrderedReturnedOnClose \<Rightarrow> n = length ins
         | OrderedReturnedOnExit trace \<Rightarrow> n = length ins))"

definition entrances_ok ::
  "Member list \<Rightarrow> EntranceEvent list \<Rightarrow> EntranceEvent option list
    \<Rightarrow> (Member \<times> Process \<times> bool) list \<Rightarrow> bool" where
  "entrances_ok ins elog gt obs =
     (elog = map (\<lambda>m. EntranceEvent m (Background m)) (take (length elog) ins)
      \<and> gt = map Some (take (length gt) elog)
      \<and> length gt \<le> length elog
      \<and> ((length elog = length ins \<and> pending obs = [])
          \<or> (Suc (length elog) = length ins
              \<and> pending obs = [(last ins, Background (last ins), False)])))"

definition ordered_inv :: "Member list \<Rightarrow> ordered_system \<Rightarrow> bool" where
  "ordered_inv ms st =
     (names_agree (osys st)
      \<and> sends_ok ms (started (effects (engine (osys st)))) (length (got st)) (octl st)
      \<and> (entranceOpen st \<longrightarrow>
           entrances_ok (started (effects (engine (osys st))))
             (entranceLog (effects (engine (osys st)))) (got st) (observers (osys st))))"

section \<open>Process set: adding and removing\<close>

lemma Remove_absent:
  "name \<notin> fst ` set (processes g) \<Longrightarrow> Remove g name = g"
proof -
  assume a: "name \<notin> fst ` set (processes g)"
  have "filter (\<lambda>e. fst e \<noteq> name) (processes g) = processes g"
    using a by (intro filter_True) auto
  then show ?thesis by (simp add: Remove_def)
qed

text \<open>
  C9. Adding under a name that is present panics (the value \<open>Inl\<close>, no set is returned);
  adding under a fresh name returns the set with the process entered under the current
  count and the count advanced; removing a name that is absent returns the set as it was.
\<close>

theorem Add_Remove_spec:
  "(name \<in> fst ` set (processes g) \<longrightarrow> Add g name proc = Inl (MemberInsertedTwice name))
   \<and> (name \<notin> fst ` set (processes g) \<longrightarrow>
        Add g name proc =
          Inr (g\<lparr>processes := processes g @ [(name, \<lparr>index = count g, process = proc\<rparr>)],
                 count := count g + 1\<rparr>)
        \<and> Remove g name = g)"
proof (cases "map_of (processes g) name")
  case None
  then have "name \<notin> fst ` set (processes g)" by (simp add: map_of_eq_None_iff)
  with None show ?thesis by (simp add: Add_def Remove_absent)
next
  case (Some e)
  then have "name \<in> fst ` set (processes g)"
    by (metis map_of_eq_None_iff option.distinct(1))
  with Some show ?thesis by (simp add: Add_def)
qed

theorem Add_Remove_spec_witness:
  "Add (newProcessSet False) ''a'' (Background (Member ''a'' 0)) =
     Inr \<lparr>ordered = False, count = 1,
          processes = [(''a'', \<lparr>index = 0, process = Background (Member ''a'' 0)\<rparr>)],
          shutdown = None\<rparr>
   \<and> Remove (newProcessSet False) ''a'' = newProcessSet False
   \<and> Add \<lparr>ordered = False, count = 1,
          processes = [(''a'', \<lparr>index = 0, process = Background (Member ''a'' 0)\<rparr>)],
          shutdown = None\<rparr> ''a'' (Background (Member ''a'' 1)) = Inl (MemberInsertedTwice ''a'')"
  using Add_Remove_spec [of "''a''" "newProcessSet False" "Background (Member ''a'' 0)"]
    Add_Remove_spec [of "''a''" "\<lparr>ordered = False, count = 1,
          processes = [(''a'', \<lparr>index = 0, process = Background (Member ''a'' 0)\<rparr>)],
          shutdown = None\<rparr>" "Background (Member ''a'' 1)"]
  by (simp add: newProcessSet_def)

section \<open>Process set: signalling\<close>

lemma signalEach_no_recv: "RecvWait q \<notin> set (signalEach ord sig ps)"
  by (induction ps) auto

lemma signalEach_ordered:
  "signalEach True sig ps =
     concat (map (\<lambda>p. [ProcessSignal (process p) sig, ProcessWait (process p)]) ps)"
  by (induction ps) auto

lemma signalEach_unordered:
  "signalEach False sig ps = map (\<lambda>p. ProcessSignal (process p) sig) ps"
  by (induction ps) auto

lemma sortSlice_desc: "sorted_wrt (\<lambda>a b. index a \<ge> index b) (sortSlice pSlice)"
proof -
  have "sorted (map (\<lambda>p. - index p) (sortSlice pSlice))"
    by (simp add: sortSlice_def)
  then show ?thesis
    by (simp add: sorted_map sorted_wrt_iff_nth_less)
qed

lemma sortSlice_mset: "mset (sortSlice pSlice) = mset pSlice"
  by (simp add: sortSlice_def)

lemma filter_key_distinct:
  "distinct (map f xs) \<Longrightarrow> k \<in> set xs \<Longrightarrow> filter (\<lambda>x. f k = f x) xs = [k]"
proof (induction xs)
  case Nil
  then show ?case by simp
next
  case (Cons a xs)
  show ?case
  proof (cases "k = a")
    case True
    have "filter (\<lambda>x. f a = f x) xs = []"
      using Cons.prems(1) by (auto simp: filter_empty_conv)
    with True show ?thesis by simp
  next
    case False
    with Cons.prems have k: "k \<in> set xs" by simp
    then have "f k \<in> f ` set xs" by (rule imageI)
    then have "f k \<noteq> f a" using Cons.prems(1) by auto
    with Cons.IH k Cons.prems(1) show ?thesis by simp
  qed
qed

text \<open>
  \<^verbatim>\<open>sort.Sort\<close> is not the insertion sort of \<open>sort_key\<close>, but where the indices
  differ pairwise there is one descending arrangement only, whatever order the
  \<^verbatim>\<open>range\<close> produced and whatever algorithm sorted it.
\<close>

lemma sortSlice_unique:
  assumes m: "mset qs = mset ps" and d: "distinct (map index ps)"
    and s: "sorted_wrt (\<lambda>a b. index a > index b) qs"
  shows "sortSlice ps = qs"
  unfolding sortSlice_def
proof (rule properties_for_sort_key)
  show "mset qs = mset ps" by (rule m)
next
  fix k assume k: "k \<in> set qs"
  have "mset (map index qs) = mset (map index ps)" using m by simp
  then have dq: "distinct (map index qs)" using d
    by (metis mset_eq_imp_distinct_iff)
  have kp: "k \<in> set ps" using k m by (metis set_mset_mset)
  have e: "(\<lambda>x. - index k = - index x) = (\<lambda>x. index k = index x)" by auto
  show "filter (\<lambda>x. - index k = - index x) qs = filter (\<lambda>x. - index k = - index x) ps"
    unfolding e using filter_key_distinct [OF dq k] filter_key_distinct [OF d kp] by simp
next
  have "sorted_wrt (\<lambda>a b. - index a \<le> - index b) qs"
    using s by (rule sorted_wrt_mono_rel [rotated]) simp
  then show "sorted (map (\<lambda>p. - index p) qs)"
    by (simp add: sorted_map)
qed

text \<open>
  C1. What \<open>Signal\<close> does on an ordered set, for every order in which the map may have
  been ranged over: the processes are taken in descending index; each is sent the
  signal and then \<^verbatim>\<open>Wait()\<close> is called on it, which hands back the wait channel; no
  receive from that channel is among the actions, so the next process is signalled
  without the exit of the one before having been awaited.
\<close>

theorem Signal_ordered_trace:
  assumes "ordered g" and "mset pSlice = mset (map snd (processes g))"
  shows "snd (SignalRange g sig pSlice) =
           concat (map (\<lambda>p. [ProcessSignal (process p) sig, ProcessWait (process p)])
                    (sortSlice pSlice))
         \<and> sorted_wrt (\<lambda>a b. index a \<ge> index b) (sortSlice pSlice)
         \<and> mset (sortSlice pSlice) = mset (map snd (processes g))
         \<and> (\<forall>q. RecvWait q \<notin> set (snd (SignalRange g sig pSlice)))"
  using assms
  by (simp add: SignalRange_def signalEach_ordered sortSlice_desc sortSlice_mset
      signalEach_no_recv)

theorem Signal_ordered_trace_witness:
  "snd (Signal \<lparr>ordered = True, count = 2,
          processes = [(''a'', \<lparr>index = 0, process = Background (Member ''a'' 0)\<rparr>),
                       (''b'', \<lparr>index = 1, process = Background (Member ''b'' 1)\<rparr>)],
          shutdown = None\<rparr> (Some ''stop'')) =
     [ProcessSignal (Background (Member ''b'' 1)) (Some ''stop''),
      ProcessWait (Background (Member ''b'' 1)),
      ProcessSignal (Background (Member ''a'' 0)) (Some ''stop''),
      ProcessWait (Background (Member ''a'' 0))]"
  using Signal_ordered_trace [of "\<lparr>ordered = True, count = 2,
          processes = [(''a'', \<lparr>index = 0, process = Background (Member ''a'' 0)\<rparr>),
                       (''b'', \<lparr>index = 1, process = Background (Member ''b'' 1)\<rparr>)],
          shutdown = None\<rparr>"
        "[\<lparr>index = 0, process = Background (Member ''a'' 0)\<rparr>,
          \<lparr>index = 1, process = Background (Member ''b'' 1)\<rparr>]" "Some ''stop''"]
  by (simp add: Signal_def sortSlice_def)

section \<open>The observer: entrance before exit\<close>

text \<open>
  C3. In both branches of \<open>waitForEvents\<close> the entrance is sent first and the exit
  second: when readiness comes first, the exit carries what the wait channel delivers
  afterwards; when the wait channel comes first, the exit carries the error received
  from it. Whatever the observer meets, an exit among its sends is preceded by exactly
  one entrance of the same member, and it never sends two entrances.
\<close>

theorem waitForEvents_entrance_then_exit:
  "(first env = ReadyFirst \<and> entrance_received env \<and> wait_value env = Some err
      \<and> exit_received env \<longrightarrow>
      waitForEvents m pr env =
        [SendEntrance (EntranceEvent m pr), SendExit (ExitEvent m err)])
   \<and> (first env = WaitFirst err \<and> entrance_received env \<and> exit_received env \<longrightarrow>
      waitForEvents m pr env =
        [SendEntrance (EntranceEvent m pr), SendExit (ExitEvent m err)])
   \<and> (\<forall>x. SendExit x \<in> set (waitForEvents m pr env) \<longrightarrow>
        (\<exists>e. x = ExitEvent m e \<and>
          waitForEvents m pr env = [SendEntrance (EntranceEvent m pr), SendExit x]))
   \<and> length (filter isEntrance (waitForEvents m pr env)) \<le> 1"
  by (auto simp: waitForEvents_def split: first_event.splits option.splits)

theorem waitForEvents_entrance_then_exit_witness:
  "waitForEvents (Member ''a'' 0) (Background (Member ''a'' 0))
      \<lparr>first = ReadyFirst, entrance_received = True, wait_value = Some (Some ''boom''),
       exit_received = True\<rparr> =
     [SendEntrance (EntranceEvent (Member ''a'' 0) (Background (Member ''a'' 0))),
      SendExit (ExitEvent (Member ''a'' 0) (Some ''boom''))]
   \<and> waitForEvents (Member ''a'' 0) (Background (Member ''a'' 0))
      \<lparr>first = WaitFirst (Some ''boom''), entrance_received = True, wait_value = None,
       exit_received = True\<rparr> =
     [SendEntrance (EntranceEvent (Member ''a'' 0) (Background (Member ''a'' 0))),
      SendExit (ExitEvent (Member ''a'' 0) (Some ''boom''))]"
proof
  show "waitForEvents (Member ''a'' 0) (Background (Member ''a'' 0))
      \<lparr>first = ReadyFirst, entrance_received = True, wait_value = Some (Some ''boom''),
       exit_received = True\<rparr> =
     [SendEntrance (EntranceEvent (Member ''a'' 0) (Background (Member ''a'' 0))),
      SendExit (ExitEvent (Member ''a'' 0) (Some ''boom''))]"
    using waitForEvents_entrance_then_exit [of
      "\<lparr>first = ReadyFirst, entrance_received = True, wait_value = Some (Some ''boom''),
       exit_received = True\<rparr>" "Some ''boom''" "Member ''a'' 0" "Background (Member ''a'' 0)",
      THEN conjunct1]
    by simp
  show "waitForEvents (Member ''a'' 0) (Background (Member ''a'' 0))
      \<lparr>first = WaitFirst (Some ''boom''), entrance_received = True, wait_value = None,
       exit_received = True\<rparr> =
     [SendEntrance (EntranceEvent (Member ''a'' 0) (Background (Member ''a'' 0))),
      SendExit (ExitEvent (Member ''a'' 0) (Some ''boom''))]"
    using waitForEvents_entrance_then_exit [of
      "\<lparr>first = WaitFirst (Some ''boom''), entrance_received = True, wait_value = None,
       exit_received = True\<rparr>" "Some ''boom''" "Member ''a'' 0" "Background (Member ''a'' 0)",
      THEN conjunct2, THEN conjunct1]
    by simp
qed

section \<open>The dynamic group: admission after the decision to stop\<close>

lemmas run_simps =
  NewDynamic_def system_start_def Run_start_def newProcessSet_def withEngine_def Add_def
  Remove_def Length_def Complete_def Signaled_def Signal_def SignalRange_def memberNames_def stateOf_def

text \<open>
  C2. Two runs in which a member is admitted after the loop has decided to stop. In the
  first, with room for two, member a is inserted, a signal arrives on the signals
  channel (the loop signals a and closes the client, but leaves its insert channel
  variable as it is), and the insert case is taken once more: b joins the process set.
  In the second, with room for three and no termination signal configured, a and b are
  inserted, the close notifier fires (insert channel variable set to nil), both
  entrances are received, a exits, which puts the insert channel back, and c is
  admitted.
\<close>

theorem Run_admits_after_stop:
  "memberNames
     (system_run (NewDynamic None 2 2 False) (system_start (NewDynamic None 2 2 False))
        [Insert (Member ''a'' 0), Signals (Some ''interrupt''), Insert (Member ''b'' 1)])
     = Some [''a'', ''b'']
   \<and> memberNames
     (system_run (NewDynamic None 3 3 False) (system_start (NewDynamic None 3 3 False))
        [Insert (Member ''a'' 0), Insert (Member ''b'' 1), CloseNotified,
         Entrance ''a'', Entrance ''b'', Exit ''a'' None, Insert (Member ''c'' 2)])
     = Some [''b'', ''c'']"
  by (simp add: run_simps)

section \<open>The dynamic group: capacity\<close>

lemma Signal_processes [simp]:
  "processes (fst (Signal g sig)) = processes g"
  "ordered (fst (Signal g sig)) = ordered g"
  "shutdown (fst (Signal g sig)) = sig"
  by (simp_all add: Signal_def SignalRange_def)

lemma Length_Signal [simp]: "Length (fst (Signal g sig)) = Length g"
  by (simp add: Length_def)

lemma Add_Inr:
  "Add g name pr = Inr g' \<Longrightarrow>
     name \<notin> fst ` set (processes g)
     \<and> processes g' = processes g @ [(name, \<lparr>index = count g, process = pr\<rparr>)]
     \<and> shutdown g' = shutdown g \<and> ordered g' = ordered g"
  by (auto simp: Add_def map_of_eq_None_iff split: option.splits)

lemma Remove_processes [simp]:
  "processes (Remove g name) = filter (\<lambda>e. fst e \<noteq> name) (processes g)"
  "shutdown (Remove g name) = shutdown g"
  by (simp_all add: Remove_def)

text \<open>What one turn of the loop does to the process set and to the insert channel.\<close>

lemma Run_body_other:
  assumes "Run_body p s c = Next s' \<or> Run_body p s c = Returned s'"
    and "c = RecvSignals sig \<or> c = RecvCloseNotifier \<or> c = RecvInsertClosed \<or> c = RecvEntrance e"
  shows "processes (procs s') = processes (procs s) \<and> (insertEvents s' \<longrightarrow> insertEvents s)"
  using assms
  by (auto split: if_splits prod.splits simp: Signal_def SignalRange_def)

lemma Run_body_insert:
  assumes "Run_body p s (RecvInsert m) = Next s' \<or> Run_body p s (RecvInsert m) = Returned s'"
  shows "insertEvents s \<and> Name m \<notin> fst ` set (processes (procs s))
     \<and> (\<exists>el. processes (procs s') = processes (procs s) @ [(Name m, el)])
     \<and> (insertEvents s' \<longleftrightarrow> Length (procs s') \<noteq> poolSize p)"
  using assms
  by (auto split: if_splits sum.splits dest!: Add_Inr simp: Length_def)

lemma Run_body_exit:
  assumes "Run_body p s (RecvExit x) = Next s' \<or> Run_body p s (RecvExit x) = Returned s'"
  shows "processes (procs s') = filter (\<lambda>e. fst e \<noteq> Name (ExitMember x)) (processes (procs s))"
  using assms
  by (auto simp: Let_def Signal_def SignalRange_def split: if_splits prod.splits)

lemma withEngine_Next:
  "withEngine st obs r = Next st' \<longleftrightarrow> (\<exists>s. r = Next s \<and> st' = \<lparr>engine = s, observers = obs\<rparr>)"
  by (auto simp: withEngine_def split: turn.splits)

lemma withEngine_Returned:
  "withEngine st obs r = Returned st' \<longleftrightarrow>
     (\<exists>s. r = Returned s \<and> st' = \<lparr>engine = s, observers = obs\<rparr>)"
  by (auto simp: withEngine_def split: turn.splits)

lemma withEngine_state:
  "stateOf (withEngine st obs r) = Some st' \<longleftrightarrow>
     (\<exists>s. (r = Next s \<or> r = Returned s) \<and> st' = \<lparr>engine = s, observers = obs\<rparr>)"
  by (auto simp: withEngine_def stateOf_def split: turn.splits)

lemma stateOf_simps [simp]:
  "stateOf (Next st) = Some st" "stateOf (Returned st) = Some st"
  "stateOf (Panicked e) = None" "stateOf Disabled = None"
  by (simp_all add: stateOf_def)

lemma system_step_cases:
  assumes "stateOf (system_step p st ev) = Some st'"
  obtains (simple) c s where
      "Run_body p (engine st) c = Next s \<or> Run_body p (engine st) c = Returned s"
      "st' = \<lparr>engine = s, observers = observers st\<rparr>"
      "(\<exists>sig. ev = Signals sig \<and> c = RecvSignals sig)
        \<or> (ev = CloseNotified \<and> c = RecvCloseNotifier)
        \<or> (ev = InsertClosed \<and> c = RecvInsertClosed)"
  | (insert) m s where "ev = Insert m"
      "Run_body p (engine st) (RecvInsert m) = Next s
        \<or> Run_body p (engine st) (RecvInsert m) = Returned s"
      "st' = \<lparr>engine = s, observers = observers st @ [(m, Background m, False)]\<rparr>"
  | (entrance) n m pr sent s where "ev = Entrance n"
      "find (\<lambda>(m, pr, sent). Name m = n \<and> \<not> sent) (observers st) = Some (m, pr, sent)"
      "Run_body p (engine st) (RecvEntrance (EntranceEvent m pr)) = Next s
        \<or> Run_body p (engine st) (RecvEntrance (EntranceEvent m pr)) = Returned s"
      "st' = \<lparr>engine = s, observers =
          map (\<lambda>(m', pr', sent'). (m', pr', sent' \<or> Name m' = n)) (observers st)\<rparr>"
  | (exit) n err m pr sent s where "ev = Exit n err"
      "find (\<lambda>(m, pr, sent). Name m = n \<and> sent) (observers st) = Some (m, pr, sent)"
      "Run_body p (engine st) (RecvExit (ExitEvent m err)) = Next s
        \<or> Run_body p (engine st) (RecvExit (ExitEvent m err)) = Returned s"
      "st' = \<lparr>engine = s, observers =
          filter (\<lambda>(m', pr', sent'). Name m' \<noteq> n) (observers st)\<rparr>"
proof (cases ev)
  case (Signals sig)
  with assms obtain s where
    "Run_body p (engine st) (RecvSignals sig) = Next s
      \<or> Run_body p (engine st) (RecvSignals sig) = Returned s"
    "st' = \<lparr>engine = s, observers = observers st\<rparr>"
    by (auto simp: withEngine_state simp del: Run_body.simps)
  with Signals show ?thesis by (intro simple [of "RecvSignals sig" s]) auto
next
  case CloseNotified
  with assms obtain s where
    "Run_body p (engine st) RecvCloseNotifier = Next s
      \<or> Run_body p (engine st) RecvCloseNotifier = Returned s"
    "st' = \<lparr>engine = s, observers = observers st\<rparr>"
    by (auto simp: withEngine_state simp del: Run_body.simps)
  with CloseNotified show ?thesis by (intro simple [of RecvCloseNotifier s]) auto
next
  case (Insert m)
  with assms obtain s where
    "Run_body p (engine st) (RecvInsert m) = Next s
      \<or> Run_body p (engine st) (RecvInsert m) = Returned s"
    "st' = \<lparr>engine = s, observers = observers st @ [(m, Background m, False)]\<rparr>"
    by (auto simp: withEngine_state simp del: Run_body.simps)
  with Insert show ?thesis by (intro insert [of m s]) auto
next
  case InsertClosed
  with assms obtain s where
    "Run_body p (engine st) RecvInsertClosed = Next s
      \<or> Run_body p (engine st) RecvInsertClosed = Returned s"
    "st' = \<lparr>engine = s, observers = observers st\<rparr>"
    by (auto simp: withEngine_state simp del: Run_body.simps)
  with InsertClosed show ?thesis by (intro simple [of RecvInsertClosed s]) auto
next
  case (Entrance n)
  with assms obtain m pr sent where
    f: "find (\<lambda>(m, pr, sent). Name m = n \<and> \<not> sent) (observers st) = Some (m, pr, sent)"
    by (cases "find (\<lambda>(m, pr, sent). Name m = n \<and> \<not> sent) (observers st)") auto
  with assms Entrance obtain s where
    "Run_body p (engine st) (RecvEntrance (EntranceEvent m pr)) = Next s
      \<or> Run_body p (engine st) (RecvEntrance (EntranceEvent m pr)) = Returned s"
    "st' = \<lparr>engine = s, observers =
        map (\<lambda>(m', pr', sent'). (m', pr', sent' \<or> Name m' = n)) (observers st)\<rparr>"
    by (auto simp: withEngine_state simp del: Run_body.simps)
  with Entrance f show ?thesis by (intro entrance [of n m pr sent s]) auto
next
  case (Exit n err)
  with assms obtain m pr sent where
    f: "find (\<lambda>(m, pr, sent). Name m = n \<and> sent) (observers st) = Some (m, pr, sent)"
    by (cases "find (\<lambda>(m, pr, sent). Name m = n \<and> sent) (observers st)") auto
  with assms Exit obtain s where
    "Run_body p (engine st) (RecvExit (ExitEvent m err)) = Next s
      \<or> Run_body p (engine st) (RecvExit (ExitEvent m err)) = Returned s"
    "st' = \<lparr>engine = s, observers =
        filter (\<lambda>(m', pr', sent'). Name m' \<noteq> n) (observers st)\<rparr>"
    by (auto simp: withEngine_state simp del: Run_body.simps)
  with Exit f show ?thesis by (intro exit [of n err m pr sent s]) auto
qed

lemma find_SomeD: "find P xs = Some x \<Longrightarrow> x \<in> set xs \<and> P x"
  by (induction xs) (auto split: if_splits)

lemma map_fst_filter_name:
  "map fst (filter (\<lambda>e. fst e \<noteq> n) xs) = filter (\<lambda>k. k \<noteq> n) (map fst xs)"
  by (induction xs) auto

lemma map_name_filter:
  "map (\<lambda>ob. Name (fst ob)) (filter (\<lambda>(m', pr', sent'). Name m' \<noteq> n) obs) =
     filter (\<lambda>k. k \<noteq> n) (map (\<lambda>ob. Name (fst ob)) obs)"
  by (induction obs) auto

lemma map_name_mark:
  "map (\<lambda>ob. Name (fst ob)) (map (\<lambda>(m', pr', sent'). (m', pr', sent' \<or> Name m' = n)) obs) =
     map (\<lambda>ob. Name (fst ob)) obs"
  by (induction obs) auto

lemma names_agree_step:
  assumes inv: "names_agree st" and step: "stateOf (system_step p st ev) = Some st'"
  shows "names_agree st'"
  using step
proof (cases rule: system_step_cases)
  case (simple c s)
  from simple(1,3) Run_body_other [of p "engine st" c s]
  have "processes (procs s) = processes (procs (engine st))" by blast
  with inv simple(2) show ?thesis by (auto simp: names_agree_def)
next
  case (insert m s)
  from Run_body_insert [OF insert(2)] obtain el where
    fresh: "Name m \<notin> fst ` set (processes (procs (engine st)))"
    and ps: "processes (procs s) = processes (procs (engine st)) @ [(Name m, el)]"
    by blast
  from inv have eq: "map fst (processes (procs (engine st))) =
      map (\<lambda>ob. Name (fst ob)) (observers st)"
    and d: "distinct (map fst (processes (procs (engine st))))"
    unfolding names_agree_def by blast+
  have "map fst (processes (procs s)) =
      map (\<lambda>ob. Name (fst ob)) (observers st @ [(m, Background m, False)])"
    using eq ps by simp
  moreover have "distinct (map fst (processes (procs s)))"
    using d fresh ps by simp
  ultimately show ?thesis by (simp add: names_agree_def insert(3))
next
  case (entrance n m pr sent s)
  from Run_body_other [OF entrance(3)]
  have "processes (procs s) = processes (procs (engine st))" by blast
  with inv entrance(4) show ?thesis by (auto simp: names_agree_def map_name_mark)
next
  case (exit n err m pr sent s)
  from find_SomeD [OF exit(2)] have n: "Name m = n" by simp
  from Run_body_exit [OF exit(3)] n have
    "processes (procs s) = filter (\<lambda>e. fst e \<noteq> n) (processes (procs (engine st)))" by simp
  with inv exit(4) show ?thesis
    by (auto simp: names_agree_def map_fst_filter_name map_name_filter)
qed

lemma length_filter_remove_one:
  "distinct (map fst xs) \<Longrightarrow> n \<in> fst ` set xs \<Longrightarrow>
     Suc (length (filter (\<lambda>e. fst e \<noteq> n) xs)) = length xs"
proof (induction xs)
  case Nil
  then show ?case by simp
next
  case (Cons a xs)
  show ?case
  proof (cases "fst a = n")
    case True
    then have "n \<notin> fst ` set xs" using Cons.prems(1) by auto
    then have "filter (\<lambda>e. fst e \<noteq> n) xs = xs" by (intro filter_True) auto
    with True show ?thesis by simp
  next
    case False
    with Cons show ?thesis by auto
  qed
qed

lemma exit_frees_slot:
  assumes inv: "names_agree st"
    and f: "find (\<lambda>(m, pr, sent). Name m = n \<and> sent) (observers st) = Some (m, pr, sent)"
    and s: "Run_body p (engine st) (RecvExit (ExitEvent m err)) = Next s
      \<or> Run_body p (engine st) (RecvExit (ExitEvent m err)) = Returned s"
  shows "Length (procs s) = Length (procs (engine st)) - 1"
proof -
  from find_SomeD [OF f] have mem: "(m, pr, sent) \<in> set (observers st)" and n: "Name m = n"
    by auto
  from mem have "Name m \<in> set (map (\<lambda>ob. Name (fst ob)) (observers st))" by force
  with inv have "Name m \<in> set (map fst (processes (procs (engine st))))"
    unfolding names_agree_def by metis
  then have inset: "Name m \<in> fst ` set (processes (procs (engine st)))" by simp
  from inv have d: "distinct (map fst (processes (procs (engine st))))"
    unfolding names_agree_def by blast
  from Run_body_exit [OF s] have
    "processes (procs s) = filter (\<lambda>e. fst e \<noteq> Name m) (processes (procs (engine st)))"
    by simp
  with length_filter_remove_one [OF d inset] show ?thesis
    by (simp add: Length_def)
qed

lemma within_capacity_step:
  assumes pos: "0 < poolSize p" and inv: "names_agree st" and cap: "within_capacity p st"
    and step: "stateOf (system_step p st ev) = Some st'"
  shows "within_capacity p st'"
  using step
proof (cases rule: system_step_cases)
  case (simple c s)
  from simple(1,3) Run_body_other [of p "engine st" c s]
  have "processes (procs s) = processes (procs (engine st))"
    and "insertEvents s \<longrightarrow> insertEvents (engine st)" by blast+
  with cap simple(2) show ?thesis by (auto simp: within_capacity_def Length_def)
next
  case (insert m s)
  from Run_body_insert [OF insert(2)] obtain el where
    en: "insertEvents (engine st)"
    and ps: "processes (procs s) = processes (procs (engine st)) @ [(Name m, el)]"
    and ie: "insertEvents s \<longleftrightarrow> Length (procs s) \<noteq> poolSize p"
    by blast
  from cap en have "Length (procs (engine st)) < poolSize p" by (simp add: within_capacity_def)
  moreover from ps have "Length (procs s) = Length (procs (engine st)) + 1"
    by (simp add: Length_def)
  ultimately show ?thesis using ie insert(3) by (auto simp: within_capacity_def)
next
  case (entrance n m pr sent s)
  from Run_body_other [OF entrance(3)]
  have "processes (procs s) = processes (procs (engine st))"
    and "insertEvents s \<longrightarrow> insertEvents (engine st)" by blast+
  with cap entrance(4) show ?thesis by (auto simp: within_capacity_def Length_def)
next
  case (exit n err m pr sent s)
  from exit_frees_slot [OF inv exit(2) exit(3)]
  have "Length (procs s) = Length (procs (engine st)) - 1" .
  with cap exit(4) show ?thesis by (auto simp: within_capacity_def)
qed

lemma system_run_invariant:
  assumes pos: "0 < poolSize p"
  shows "names_agree st \<Longrightarrow> within_capacity p st \<Longrightarrow>
     stateOf (system_run p st evs) = Some st' \<Longrightarrow> names_agree st' \<and> within_capacity p st'"
proof (induction evs arbitrary: st)
  case Nil
  then show ?case by simp
next
  case (Cons e es)
  show ?case
  proof (cases "system_step p st e")
    case (Next st1)
    then have s1: "stateOf (system_step p st e) = Some st1" by simp
    from Cons.prems(3) Next have r: "stateOf (system_run p st1 es) = Some st'" by simp
    from names_agree_step [OF Cons.prems(1) s1] within_capacity_step [OF pos Cons.prems(1,2) s1]
    show ?thesis using Cons.IH r by blast
  next
    case (Returned st1)
    then have s1: "stateOf (system_step p st e) = Some st1" by simp
    from Cons.prems(3) Returned have "st' = st1" by simp
    with names_agree_step [OF Cons.prems(1) s1] within_capacity_step [OF pos Cons.prems(1,2) s1]
    show ?thesis by simp
  next
    case (Panicked x)
    with Cons.prems(3) show ?thesis by simp
  next
    case Disabled
    with Cons.prems(3) show ?thesis by simp
  qed
qed

lemma start_invariant:
  "names_agree (system_start p)" "0 < poolSize p \<Longrightarrow> within_capacity p (system_start p)"
  by (simp_all add: names_agree_def within_capacity_def system_start_def Run_start_def
      newProcessSet_def Length_def)

lemma reenabled_by_exit_only:
  assumes inv: "names_agree st" and off: "\<not> insertEvents (engine st)"
    and step: "system_step p st ev = Next st'" and on: "insertEvents (engine st')"
  shows "(\<exists>n e. ev = Exit n e) \<and> Length (procs (engine st')) = Length (procs (engine st)) - 1"
proof -
  from step have "stateOf (system_step p st ev) = Some st'" by simp
  then show ?thesis
  proof (cases rule: system_step_cases)
    case (simple c s)
    from simple(1,3) Run_body_other [of p "engine st" c s]
    have "insertEvents s \<longrightarrow> insertEvents (engine st)" by blast
    with off on simple(2) show ?thesis by simp
  next
    case (insert m s)
    from Run_body_insert [OF insert(2)] off show ?thesis by blast
  next
    case (entrance n m pr sent s)
    from Run_body_other [OF entrance(3)]
    have "insertEvents s \<longrightarrow> insertEvents (engine st)" by blast
    with off on entrance(4) show ?thesis by simp
  next
    case (exit n err m pr sent s)
    from exit_frees_slot [OF inv exit(2) exit(3)] exit(1,4) show ?thesis by simp
  qed
qed

text \<open>
  C4. For a capacity of at least one, at every point of every run: the process
  set holds at most \<open>poolSize\<close> members; when it holds exactly \<open>poolSize\<close> the insert
  channel variable is nil; and a turn that finds the insert channel nil and leaves it
  held is the receipt of an exit that has taken one member out of the set.
\<close>

theorem capacity_respected:
  assumes "0 < poolSize p" and "stateOf (system_run p (system_start p) evs) = Some st"
  shows "Length (procs (engine st)) \<le> poolSize p
     \<and> (Length (procs (engine st)) = poolSize p \<longrightarrow> \<not> insertEvents (engine st))
     \<and> (\<forall>ev st'. \<not> insertEvents (engine st) \<and> system_step p st ev = Next st'
            \<and> insertEvents (engine st') \<longrightarrow>
          (\<exists>n e. ev = Exit n e)
          \<and> Length (procs (engine st')) = Length (procs (engine st)) - 1)"
proof -
  from system_run_invariant [OF assms(1) start_invariant(1) start_invariant(2) [OF assms(1)] assms(2)]
  have na: "names_agree st" and wc: "within_capacity p st" by blast+
  from wc have "Length (procs (engine st)) \<le> poolSize p"
    and "Length (procs (engine st)) = poolSize p \<longrightarrow> \<not> insertEvents (engine st)"
    by (auto simp: within_capacity_def)
  moreover have "\<forall>ev st'. \<not> insertEvents (engine st) \<and> system_step p st ev = Next st'
            \<and> insertEvents (engine st') \<longrightarrow>
          (\<exists>n e. ev = Exit n e)
          \<and> Length (procs (engine st')) = Length (procs (engine st)) - 1"
    using reenabled_by_exit_only [OF na] by blast
  ultimately show ?thesis by blast
qed

theorem capacity_respected_witness:
  "\<exists>st. stateOf (system_run (NewDynamic None 1 1 False) (system_start (NewDynamic None 1 1 False))
        [Insert (Member ''a'' 0), Entrance ''a'']) = Some st
     \<and> Length (procs (engine st)) \<le> poolSize (NewDynamic None 1 1 False)
     \<and> \<not> insertEvents (engine st)"
proof -
  obtain st where st:
    "stateOf (system_run (NewDynamic None 1 1 False) (system_start (NewDynamic None 1 1 False))
        [Insert (Member ''a'' 0), Entrance ''a'']) = Some st"
    by (simp add: run_simps)
  have pos: "0 < poolSize (NewDynamic None 1 1 False)" by (simp add: NewDynamic_def)
  from capacity_respected [OF pos st]
  have "Length (procs (engine st)) \<le> poolSize (NewDynamic None 1 1 False)"
    and "Length (procs (engine st)) = poolSize (NewDynamic None 1 1 False)
      \<longrightarrow> \<not> insertEvents (engine st)"
    by blast+
  moreover have "Length (procs (engine st)) = poolSize (NewDynamic None 1 1 False)"
    using st by (auto simp: run_simps)
  ultimately show ?thesis using st by blast
qed

text \<open>
  With capacity zero the comparison \<^verbatim>\<open>processes.Length() == p.poolSize\<close> after an
  insert never holds, and the set grows beyond the capacity.
\<close>

theorem capacity_zero_counterexample:
  "\<exists>st. stateOf (system_run (NewDynamic None 0 0 False) (system_start (NewDynamic None 0 0 False))
        [Insert (Member ''a'' 0)]) = Some st
     \<and> poolSize (NewDynamic None 0 0 False) < Length (procs (engine st))"
  by (simp add: run_simps)

section \<open>The exit event broadcaster: attach and close\<close>

lemma chan_send_Inr:
  assumes "chan_send c x = Inr c'" and "chan_ok c"
  shows "stream c' = stream c @ [x] \<and> closed c' = closed c \<and> \<not> closed c \<and> chan_ok c'
    \<and> cap c' = cap c"
  using assms by (auto simp: chan_send_def stream_def chan_ok_def split: if_splits)

lemma chan_recv_stream:
  "chan_ok c \<Longrightarrow> stream (chan_recv c) = stream c \<and> closed (chan_recv c) = closed c
     \<and> chan_ok (chan_recv c)"
  by (auto simp: chan_recv_def stream_def chan_ok_def split: list.splits)

lemma chan_close_Inr:
  "\<not> closed c \<Longrightarrow> chan_close c = Inr (c\<lparr>closed := True, waiting := 0\<rparr>)"
  by (simp add: chan_close_def)

lemma sendAll_fresh:
  "\<not> closed c \<Longrightarrow> waiting c = 0 \<Longrightarrow> length (queue c) + length xs \<le> cap c \<Longrightarrow>
     sendAll c xs = Inr (c\<lparr>queue := queue c @ xs\<rparr>)"
proof (induction xs arbitrary: c)
  case Nil
  then show ?case by simp
next
  case (Cons x xs)
  from Cons.prems have s: "chan_send c x = Inr (c\<lparr>queue := queue c @ [x]\<rparr>)"
    by (simp add: chan_send_def)
  let ?c = "c\<lparr>queue := queue c @ [x]\<rparr>"
  have "sendAll ?c xs = Inr (?c\<lparr>queue := queue ?c @ xs\<rparr>)"
    by (rule Cons.IH) (use Cons.prems in auto)
  with s show ?case by simp
qed

lemma sendEach_Inr:
  assumes "sendEach h cs x = Inr h'" and "distinct cs" and "\<forall>c < length h. chan_ok (h ! c)"
  shows "length h' = length h
     \<and> (\<forall>c < length h. stream (h' ! c) = stream (h ! c) @ (if c \<in> set cs then [x] else [])
           \<and> closed (h' ! c) = closed (h ! c) \<and> chan_ok (h' ! c))"
  using assms
proof (induction cs arbitrary: h)
  case Nil
  then show ?case by simp
next
  case (Cons c cs)
  from Cons.prems(1) obtain ch where c: "c < length h" and s: "chan_send (h ! c) x = Inr ch"
    and r: "sendEach (h[c := ch]) cs x = Inr h'"
    by (auto split: if_splits sum.splits)
  from Cons.prems(3) c have ok: "chan_ok (h ! c)" by simp
  note cs = chan_send_Inr [OF s ok]
  have ok': "\<forall>d < length (h[c := ch]). chan_ok (h[c := ch] ! d)"
    using Cons.prems(3) cs c by (auto simp: nth_list_update)
  from Cons.prems(2) have d: "distinct cs" and nc: "c \<notin> set cs" by auto
  from Cons.IH [OF r d ok'] have len: "length h' = length h"
    and each: "\<forall>d < length h. stream (h' ! d) =
        stream (h[c := ch] ! d) @ (if d \<in> set cs then [x] else [])
        \<and> closed (h' ! d) = closed (h[c := ch] ! d) \<and> chan_ok (h' ! d)"
    by simp_all
  show ?case
  proof (intro conjI allI impI)
    show "length h' = length h" by (rule len)
  next
    fix d assume dl: "d < length h"
    with each have e: "stream (h' ! d) =
        stream (h[c := ch] ! d) @ (if d \<in> set cs then [x] else [])" by blast
    show "stream (h' ! d) = stream (h ! d) @ (if d \<in> set (c # cs) then [x] else [])"
    proof (cases "d = c")
      case True
      with e nc cs c show ?thesis by simp
    next
      case False
      with e show ?thesis by simp
    qed
  next
    fix d assume dl: "d < length h"
    with each have "closed (h' ! d) = closed (h[c := ch] ! d)" by blast
    then show "closed (h' ! d) = closed (h ! d)"
      using cs c by (cases "d = c") simp_all
  next
    fix d assume dl: "d < length h"
    with each show "chan_ok (h' ! d)" by blast
  qed
qed

lemma closeEach_Inr:
  assumes "distinct cs" and "\<forall>c \<in> set cs. c < length h \<and> \<not> closed (h ! c)"
  shows "\<exists>h'. closeEach h cs = Inr h' \<and> length h' = length h
     \<and> (\<forall>c < length h. stream (h' ! c) = stream (h ! c)
          \<and> closed (h' ! c) = (closed (h ! c) \<or> c \<in> set cs)
          \<and> (chan_ok (h ! c) \<longrightarrow> chan_ok (h' ! c)))"
  using assms
proof (induction cs arbitrary: h)
  case Nil
  then show ?case by simp
next
  case (Cons c cs)
  from Cons.prems have c: "c < length h" and nc: "\<not> closed (h ! c)" and d: "distinct cs"
    and notin: "c \<notin> set cs" by auto
  let ?ch = "(h ! c)\<lparr>closed := True, waiting := 0\<rparr>"
  have rest: "\<forall>d \<in> set cs. d < length (h[c := ?ch]) \<and> \<not> closed (h[c := ?ch] ! d)"
    using Cons.prems notin by (auto simp: nth_list_update)
  from Cons.IH [OF d rest] obtain h' where h': "closeEach (h[c := ?ch]) cs = Inr h'"
    and len: "length h' = length h"
    and each: "\<forall>d < length h. stream (h' ! d) = stream (h[c := ?ch] ! d)
          \<and> closed (h' ! d) = (closed (h[c := ?ch] ! d) \<or> d \<in> set cs)
          \<and> (chan_ok (h[c := ?ch] ! d) \<longrightarrow> chan_ok (h' ! d))"
    by auto
  have step: "closeEach h (c # cs) = Inr h'"
    using c nc h' by (simp add: chan_close_Inr)
  have "\<forall>d < length h. stream (h' ! d) = stream (h ! d)
          \<and> closed (h' ! d) = (closed (h ! d) \<or> d \<in> set (c # cs))
          \<and> (chan_ok (h ! d) \<longrightarrow> chan_ok (h' ! d))"
  proof (intro allI impI)
    fix d assume dl: "d < length h"
    with each have e: "stream (h' ! d) = stream (h[c := ?ch] ! d)"
      "closed (h' ! d) = (closed (h[c := ?ch] ! d) \<or> d \<in> set cs)"
      "chan_ok (h[c := ?ch] ! d) \<longrightarrow> chan_ok (h' ! d)" by blast+
    show "stream (h' ! d) = stream (h ! d)
          \<and> closed (h' ! d) = (closed (h ! d) \<or> d \<in> set (c # cs))
          \<and> (chan_ok (h ! d) \<longrightarrow> chan_ok (h' ! d))"
    proof (cases "d = c")
      case True
      with e c show ?thesis by (simp add: stream_def chan_ok_def)
    next
      case False
      with e show ?thesis by simp
    qed
  qed
  with step len show ?case by blast
qed

lemma lastN_snoc:
  "drop (Suc (length (lastN n xs)) - n) (lastN n xs @ [x]) = lastN n (xs @ [x])"
proof (cases "length xs < n")
  case True
  then show ?thesis by (simp add: lastN_def)
next
  case False
  then have "Suc (length xs) - n = Suc (length xs - n)" by simp
  with False show ?thesis by (simp add: lastN_def)
qed

lemma length_lastN: "length (lastN n xs) \<le> n"
  by (simp add: lastN_def)

lemma Append_facts:
  "capacity (Append b x) = capacity b"
  "length (items (Append b x)) \<le> capacity b"
  by (simp_all add: Append_def)

lemma Append_lastN:
  "items b = lastN (capacity b) hist \<Longrightarrow> items (Append b x) = lastN (capacity b) (hist @ [x])"
proof -
  assume a: "items b = lastN (capacity b) hist"
  have "items (Append b x) = drop (Suc (length (items b)) - capacity b) (items b @ [x])"
    by (simp add: Append_def del: drop_append)
  then show ?thesis unfolding a by (simp only: lastN_snoc)
qed

lemma Attach_ok:
  assumes ok: "broadcaster_ok b"
  shows "\<exists>b' ch. Attach b = Inr (b', length (heap b))
     \<and> heap b' = heap b @ [ch]
     \<and> channels b' = map_option (\<lambda>cs. cs @ [length (heap b)]) (channels b)
     \<and> buffer b' = buffer b \<and> bufferSize b' = bufferSize b
     \<and> queue ch = Range_buffer (buffer b) \<and> received ch = [] \<and> cap ch = bufferSize b
     \<and> closed ch = (channels b = None)
     \<and> broadcaster_ok b'"
proof -
  let ?ch = "(newExitEventChannel (bufferSize b))\<lparr>queue := Range_buffer (buffer b)\<rparr>"
  from ok have fits: "length (Range_buffer (buffer b)) \<le> bufferSize b"
    by (simp add: broadcaster_ok_def Range_buffer_def)
  have sa: "sendAll (newExitEventChannel (bufferSize b)) (Range_buffer (buffer b)) = Inr ?ch"
    using sendAll_fresh [of "newExitEventChannel (bufferSize b)" "Range_buffer (buffer b)"] fits
    by (simp add: newExitEventChannel_def)
  show ?thesis
  proof (cases "channels b")
    case None
    let ?b' = "b\<lparr>heap := heap b @ [?ch\<lparr>closed := True, waiting := 0\<rparr>]\<rparr>"
    have a: "Attach b = Inr (?b', length (heap b))"
      using sa None by (simp add: Attach_def chan_close_def newExitEventChannel_def)
    have "broadcaster_ok ?b'"
      using ok None
      by (auto simp: broadcaster_ok_def nth_append chan_ok_def newExitEventChannel_def)
    with a None show ?thesis
      by (intro exI [of _ ?b'] exI [of _ "?ch\<lparr>closed := True, waiting := 0\<rparr>"])
        (simp add: newExitEventChannel_def)
  next
    case (Some cs)
    let ?b' = "b\<lparr>channels := Some (cs @ [length (heap b)]), heap := heap b @ [?ch]\<rparr>"
    have a: "Attach b = Inr (?b', length (heap b))"
      using sa Some by (simp add: Attach_def)
    from ok Some have d: "distinct cs" and r: "\<forall>c \<in> set cs. c < length (heap b) \<and> \<not> closed (heap b ! c)"
      by (auto simp: broadcaster_ok_def)
    have "broadcaster_ok ?b'"
      using ok Some d r
      by (auto simp: broadcaster_ok_def nth_append chan_ok_def newExitEventChannel_def)
    with a Some show ?thesis
      by (intro exI [of _ ?b'] exI [of _ ?ch]) (simp add: newExitEventChannel_def)
  qed
qed

lemma Broadcast_ok:
  assumes ok: "broadcaster_ok b" and br: "Broadcast b e = Inr b'"
  shows "channels b' = channels b \<and> buffer b' = Append (buffer b) e
     \<and> bufferSize b' = bufferSize b \<and> length (heap b') = length (heap b)
     \<and> (\<forall>c < length (heap b).
           stream (heap b' ! c) = stream (heap b ! c) @ (if registered b c then [e] else [])
           \<and> closed (heap b' ! c) = closed (heap b ! c))
     \<and> broadcaster_ok b'"
proof -
  let ?cs = "case channels b of Some cs \<Rightarrow> cs | None \<Rightarrow> []"
  from br obtain h where se: "sendEach (heap b) ?cs e = Inr h"
    and b': "b' = b\<lparr>buffer := Append (buffer b) e, heap := h\<rparr>"
    by (auto simp: Broadcast_def Let_def split: sum.splits)
  have d: "distinct ?cs" and cok: "\<forall>c < length (heap b). chan_ok (heap b ! c)"
    using ok by (cases "channels b"; simp add: broadcaster_ok_def)+
  note se' = sendEach_Inr [OF se d cok]
  have reg: "registered b c = (c \<in> set ?cs)" for c
    by (simp add: registered_def split: option.splits)
  have "broadcaster_ok b'"
    using ok se' b' Append_facts [of "buffer b" e]
    by (auto simp: broadcaster_ok_def)
  with se' b' reg show ?thesis by simp
qed

lemma Broadcast_closed:
  "channels b = None \<Longrightarrow> Broadcast b e = Inr (b\<lparr>buffer := Append (buffer b) e\<rparr>)"
  by (simp add: Broadcast_def)

lemma Close_ok:
  assumes ok: "broadcaster_ok b"
  shows "\<exists>b'. Close b = Inr b' \<and> channels b' = None \<and> buffer b' = buffer b
     \<and> bufferSize b' = bufferSize b \<and> length (heap b') = length (heap b)
     \<and> (\<forall>c < length (heap b). stream (heap b' ! c) = stream (heap b ! c))
     \<and> broadcaster_ok b'"
proof -
  let ?cs = "case channels b of Some cs \<Rightarrow> cs | None \<Rightarrow> []"
  have d: "distinct ?cs"
    and r: "\<forall>c \<in> set ?cs. c < length (heap b) \<and> \<not> closed (heap b ! c)"
    using ok by (cases "channels b"; simp add: broadcaster_ok_def)+
  from closeEach_Inr [OF d r] obtain h where h: "closeEach (heap b) ?cs = Inr h"
    and len: "length h = length (heap b)"
    and each: "\<forall>c < length (heap b). stream (h ! c) = stream (heap b ! c)
          \<and> closed (h ! c) = (closed (heap b ! c) \<or> c \<in> set ?cs)
          \<and> (chan_ok (heap b ! c) \<longrightarrow> chan_ok (h ! c))"
    by blast
  let ?b' = "b\<lparr>channels := None, heap := h\<rparr>"
  have c: "Close b = Inr ?b'" using h by (simp add: Close_def)
  have "broadcaster_ok ?b'" using ok len each by (auto simp: broadcaster_ok_def)
  with c len each show ?thesis by (intro exI [of _ ?b']) simp
qed

lemma Close_closed: "channels b = None \<Longrightarrow> Close b = Inr b"
  by (simp add: Close_def)

lemma Receive_ok:
  assumes ok: "broadcaster_ok b" and rc: "Receive b c = Inr b'"
  shows "channels b' = channels b \<and> buffer b' = buffer b
     \<and> bufferSize b' = bufferSize b \<and> length (heap b') = length (heap b)
     \<and> (\<forall>d < length (heap b). stream (heap b' ! d) = stream (heap b ! d))
     \<and> broadcaster_ok b'"
proof -
  from rc have c: "c < length (heap b)"
    and b': "b' = b\<lparr>heap := (heap b)[c := chan_recv (heap b ! c)]\<rparr>"
    by (auto simp: Receive_def split: if_splits)
  from ok c have cok: "chan_ok (heap b ! c)" by (simp add: broadcaster_ok_def)
  note r = chan_recv_stream [OF cok]
  have "broadcaster_ok b'"
    using ok b' r c by (auto simp: broadcaster_ok_def nth_list_update)
  moreover have "\<forall>d < length (heap b). stream (heap b' ! d) = stream (heap b ! d)"
    using b' r c by (auto simp: nth_list_update)
  ultimately show ?thesis using b' by simp
qed

lemmas broadcaster_simps =
  perform_def Broadcast_def Attach_def Close_def Receive_def Let_def Append_def
  Range_buffer_def newExitEventBroadcaster_def newSlidingBuffer_def newExitEventChannel_def
  chan_send_def chan_close_def chan_recv_def

lemma new_ok: "broadcaster_ok (newExitEventBroadcaster n)"
  by (simp add: broadcaster_ok_def newExitEventBroadcaster_def newSlidingBuffer_def)

lemma perform_inv:
  assumes ok: "broadcaster_ok b" and p: "perform b oper = Inr b1"
  shows "broadcaster_ok b1 \<and> bufferSize b1 = bufferSize b
     \<and> buffer b1 = (case oper of OpBroadcast e \<Rightarrow> Append (buffer b) e | _ \<Rightarrow> buffer b)
     \<and> length (heap b) \<le> length (heap b1)
     \<and> (\<forall>c < length (heap b).
           stream (heap b1 ! c) = stream (heap b ! c) @
             (case oper of OpBroadcast e \<Rightarrow> if registered b c then [e] else [] | _ \<Rightarrow> [])
           \<and> registered b1 c = (registered b c \<and> oper \<noteq> OpClose))"
proof (cases oper)
  case OpAttach
  from Attach_ok [OF ok] obtain b' ch where a: "Attach b = Inr (b', length (heap b))"
    and f: "heap b' = heap b @ [ch]"
      "channels b' = map_option (\<lambda>cs. cs @ [length (heap b)]) (channels b)"
      "buffer b' = buffer b" "bufferSize b' = bufferSize b" "broadcaster_ok b'"
    by blast
  from p OpAttach a have "b1 = b'" by (simp add: perform_def)
  with f OpAttach show ?thesis
    by (auto simp: nth_append registered_def split: option.splits)
next
  case (OpBroadcast e)
  with p have "Broadcast b e = Inr b1" by (simp add: perform_def)
  from Broadcast_ok [OF ok this] OpBroadcast show ?thesis
    by (auto simp: registered_def)
next
  case OpClose
  from Close_ok [OF ok] obtain b' where c: "Close b = Inr b'"
    and f: "channels b' = None" "buffer b' = buffer b" "bufferSize b' = bufferSize b"
      "length (heap b') = length (heap b)"
      "\<forall>c < length (heap b). stream (heap b' ! c) = stream (heap b ! c)"
      "broadcaster_ok b'"
    by blast
  from p OpClose c have "b1 = b'" by (simp add: perform_def)
  with f OpClose show ?thesis by (auto simp: registered_def)
next
  case (OpReceive d)
  with p have "Receive b d = Inr b1" by (simp add: perform_def)
  from Receive_ok [OF ok this] OpReceive show ?thesis
    by (auto simp: registered_def)
qed

lemma performAll_inv:
  assumes "broadcaster_ok b" and "items (buffer b) = lastN (bufferSize b) hist"
    and "performAll b opers = Inr b'"
  shows "broadcaster_ok b' \<and> bufferSize b' = bufferSize b
     \<and> items (buffer b') = lastN (bufferSize b) (hist @ broadcasts opers)"
  using assms
proof (induction opers arbitrary: b hist)
  case Nil
  then show ?case by simp
next
  case (Cons oper opers)
  from Cons.prems(3) obtain b1 where p: "perform b oper = Inr b1"
    and r: "performAll b1 opers = Inr b'"
    by (auto split: sum.splits)
  note s = perform_inv [OF Cons.prems(1) p]
  from Cons.prems(1) have cap: "capacity (buffer b) = bufferSize b"
    by (simp add: broadcaster_ok_def)
  show ?case
  proof (cases oper)
    case (OpBroadcast e)
    with s have "buffer b1 = Append (buffer b) e" by simp
    with Append_lastN [of "buffer b" hist e] Cons.prems(2) cap s
    have "items (buffer b1) = lastN (bufferSize b1) (hist @ [e])" by simp
    from Cons.IH [OF _ this r] s OpBroadcast show ?thesis by simp
  next
    case OpAttach
    with s Cons.prems(2) have "items (buffer b1) = lastN (bufferSize b1) hist" by simp
    from Cons.IH [OF _ this r] s OpAttach show ?thesis by simp
  next
    case OpClose
    with s Cons.prems(2) have "items (buffer b1) = lastN (bufferSize b1) hist" by simp
    from Cons.IH [OF _ this r] s OpClose show ?thesis by simp
  next
    case (OpReceive d)
    with s Cons.prems(2) have "items (buffer b1) = lastN (bufferSize b1) hist" by simp
    from Cons.IH [OF _ this r] s OpReceive show ?thesis by simp
  qed
qed

lemma performAll_stream:
  assumes "broadcaster_ok b" and "c < length (heap b)" and "performAll b opers = Inr b'"
  shows "c < length (heap b') \<and> stream (heap b' ! c) = stream (heap b ! c) @
     (if registered b c then broadcasts (takeWhile (\<lambda>oper. oper \<noteq> OpClose) opers) else [])"
  using assms
proof (induction opers arbitrary: b)
  case Nil
  then show ?case by simp
next
  case (Cons oper opers)
  from Cons.prems(3) obtain b1 where p: "perform b oper = Inr b1"
    and r: "performAll b1 opers = Inr b'"
    by (auto split: sum.splits)
  from perform_inv [OF Cons.prems(1) p] Cons.prems(2)
  have ok1: "broadcaster_ok b1" and c1: "c < length (heap b1)"
    and st: "stream (heap b1 ! c) = stream (heap b ! c) @
             (case oper of OpBroadcast e \<Rightarrow> if registered b c then [e] else [] | _ \<Rightarrow> [])"
    and rg: "registered b1 c = (registered b c \<and> oper \<noteq> OpClose)"
    by auto
  from Cons.IH [OF ok1 c1 r] have "c < length (heap b')"
    and "stream (heap b' ! c) = stream (heap b1 ! c) @
     (if registered b1 c then broadcasts (takeWhile (\<lambda>oper. oper \<noteq> OpClose) opers) else [])"
    by simp_all
  with st rg show ?case by (cases oper) simp_all
qed

text \<open>
  C5. After any completed operations on a broadcaster of buffer size \<open>B\<close>, \<open>Attach\<close>
  returns (it never blocks) a new channel holding the last \<open>B\<close> (or fewer, if there were
  fewer) exit events broadcast so far, in the order of their broadcast. If the
  broadcaster is not closed the channel is appended to the slice and is open; if it is
  closed the channel is closed, with the replay still buffered in it. From then on what
  the listener gets from the channel is the replay followed by every event broadcast
  until the broadcaster is closed.
\<close>

theorem Attach_replays_then_registers:
  assumes "performAll (newExitEventBroadcaster B) before = Inr b"
  shows "\<exists>b1 c. Attach b = Inr (b1, c) \<and> c = length (heap b) \<and> c < length (heap b1)
     \<and> queue (heap b1 ! c) = lastN B (broadcasts before)
     \<and> received (heap b1 ! c) = []
     \<and> length (lastN B (broadcasts before)) \<le> B
     \<and> (channels b \<noteq> None \<longrightarrow> registered b1 c \<and> \<not> closed (heap b1 ! c))
     \<and> (channels b = None \<longrightarrow> \<not> registered b1 c \<and> closed (heap b1 ! c))
     \<and> (\<forall>after b2. performAll b1 after = Inr b2 \<longrightarrow>
           stream (heap b2 ! c) = lastN B (broadcasts before) @
             (if channels b \<noteq> None
              then broadcasts (takeWhile (\<lambda>oper. oper \<noteq> OpClose) after) else []))"
proof -
  have "items (buffer (newExitEventBroadcaster B)) =
      lastN (bufferSize (newExitEventBroadcaster B)) []"
    by (simp add: newExitEventBroadcaster_def newSlidingBuffer_def lastN_def)
  from performAll_inv [OF new_ok this assms]
  have ok: "broadcaster_ok b" and its: "items (buffer b) = lastN B (broadcasts before)"
    by (simp_all add: newExitEventBroadcaster_def)
  from Attach_ok [OF ok] obtain b1 ch where a: "Attach b = Inr (b1, length (heap b))"
    and h: "heap b1 = heap b @ [ch]"
    and cs: "channels b1 = map_option (\<lambda>cs. cs @ [length (heap b)]) (channels b)"
    and q: "queue ch = Range_buffer (buffer b)" and rc: "received ch = []"
    and cl: "closed ch = (channels b = None)" and ok1: "broadcaster_ok b1"
    by (elim exE conjE) (rule that)
  let ?c = "length (heap b)"
  have c1: "?c < length (heap b1)" using h by simp
  have ch: "heap b1 ! ?c = ch" using h by simp
  have reg: "registered b1 ?c = (channels b \<noteq> None)"
    using cs by (cases "channels b") (simp_all add: registered_def)
  have str: "stream (heap b1 ! ?c) = lastN B (broadcasts before)"
    using ch q rc its by (simp add: stream_def Range_buffer_def)
  have fut: "\<forall>after b2. performAll b1 after = Inr b2 \<longrightarrow>
           stream (heap b2 ! ?c) = lastN B (broadcasts before) @
             (if channels b \<noteq> None
              then broadcasts (takeWhile (\<lambda>oper. oper \<noteq> OpClose) after) else [])"
    using performAll_stream [OF ok1 c1] str reg by simp
  show ?thesis
    using a c1 ch q rc its cl reg fut length_lastN [of B "broadcasts before"]
    by (intro exI [of _ b1] exI [of _ ?c]) (simp add: Range_buffer_def)
qed

theorem Attach_replays_then_registers_witness:
  "\<exists>b b1 c. performAll (newExitEventBroadcaster 3)
        [OpBroadcast (ExitEvent (Member ''m1'' 1) None),
         OpBroadcast (ExitEvent (Member ''m2'' 2) None),
         OpBroadcast (ExitEvent (Member ''m3'' 3) (Some ''boom'')),
         OpBroadcast (ExitEvent (Member ''m4'' 4) None),
         OpBroadcast (ExitEvent (Member ''m5'' 5) None)] = Inr b
     \<and> Attach b = Inr (b1, c)
     \<and> queue (heap b1 ! c) =
         [ExitEvent (Member ''m3'' 3) (Some ''boom''), ExitEvent (Member ''m4'' 4) None,
          ExitEvent (Member ''m5'' 5) None]
     \<and> \<not> closed (heap b1 ! c)"
proof -
  let ?ops = "[OpBroadcast (ExitEvent (Member ''m1'' 1) None),
         OpBroadcast (ExitEvent (Member ''m2'' 2) None),
         OpBroadcast (ExitEvent (Member ''m3'' 3) (Some ''boom'')),
         OpBroadcast (ExitEvent (Member ''m4'' 4) None),
         OpBroadcast (ExitEvent (Member ''m5'' 5) None)]"
  obtain b where b: "performAll (newExitEventBroadcaster 3) ?ops = Inr b"
    by (simp add: broadcaster_simps)
  have open_b: "channels b \<noteq> None" using b by (auto simp: broadcaster_simps)
  from Attach_replays_then_registers [OF b] obtain b1 c where
    "Attach b = Inr (b1, c)" "queue (heap b1 ! c) = lastN 3 (broadcasts ?ops)"
    "channels b \<noteq> None \<longrightarrow> registered b1 c \<and> \<not> closed (heap b1 ! c)"
    by blast
  with open_b b show ?thesis by (auto simp: lastN_def)
qed

lemma perform_closed:
  "channels b = None \<Longrightarrow> perform b oper = Inr b1 \<Longrightarrow> channels b1 = None"
  by (cases oper)
    (auto simp: perform_def Attach_def Broadcast_def Close_def Receive_def Let_def
      split: sum.splits if_splits)

lemma performAll_closed:
  "channels b = None \<Longrightarrow> performAll b opers = Inr b1 \<Longrightarrow> channels b1 = None"
proof (induction opers arbitrary: b)
  case Nil
  then show ?case by simp
next
  case (Cons oper opers)
  from Cons.prems(2) obtain b' where p: "perform b oper = Inr b'"
    and r: "performAll b' opers = Inr b1"
    by (auto split: sum.splits)
  from Cons.IH [OF perform_closed [OF Cons.prems(1) p] r] show ?case .
qed

lemma lastN_keeps:
  "length ys < n \<Longrightarrow> x \<in> set (lastN n (xs @ x # ys))"
proof -
  assume "length ys < n"
  then have "length (xs @ x # ys) - n \<le> length xs" by simp
  then have "drop (length (xs @ x # ys) - n) (xs @ x # ys) =
      drop (length (xs @ x # ys) - n) xs @ x # ys" by simp
  then show ?thesis by (simp add: lastN_def)
qed

text \<open>
  C10. After any completed operations, \<open>Close\<close> succeeds and leaves the slice nil; a
  second \<open>Close\<close> returns the very same state; a \<open>Broadcast\<close> on the closed
  broadcaster completes, changes the buffer by the append and nothing else (no channel
  is touched). After any further completed operations an \<open>Attach\<close> returns a closed
  channel holding the last \<open>B\<close> events broadcast so far: the event is among them as
  long as fewer than \<open>B\<close> events have been broadcast after it, and with \<open>B = 0\<close> the
  channel is empty.
\<close>

theorem Close_idempotent:
  assumes "performAll (newExitEventBroadcaster B) opers = Inr b"
  shows "\<exists>b1. Close b = Inr b1 \<and> channels b1 = None \<and> Close b1 = Inr b1
     \<and> Broadcast b1 e = Inr (b1\<lparr>buffer := Append (buffer b1) e\<rparr>)
     \<and> (\<forall>later b2. performAll (b1\<lparr>buffer := Append (buffer b1) e\<rparr>) later = Inr b2 \<longrightarrow>
          (\<exists>b3 c. Attach b2 = Inr (b3, c) \<and> c < length (heap b3) \<and> closed (heap b3 ! c)
             \<and> queue (heap b3 ! c) = lastN B (broadcasts opers @ e # broadcasts later)
             \<and> (length (broadcasts later) < B \<longrightarrow> e \<in> set (queue (heap b3 ! c)))
             \<and> (B = 0 \<longrightarrow> queue (heap b3 ! c) = [])))"
proof -
  have "items (buffer (newExitEventBroadcaster B)) =
      lastN (bufferSize (newExitEventBroadcaster B)) []"
    by (simp add: newExitEventBroadcaster_def newSlidingBuffer_def lastN_def)
  from performAll_inv [OF new_ok this assms]
  have ok: "broadcaster_ok b" and bs: "bufferSize b = B"
    and it: "items (buffer b) = lastN B (broadcasts opers)"
    by (simp_all add: newExitEventBroadcaster_def)
  from Close_ok [OF ok] obtain b1 where c: "Close b = Inr b1" and n: "channels b1 = None"
    and bs1: "bufferSize b1 = B" and ok1: "broadcaster_ok b1" and bf: "buffer b1 = buffer b"
    using bs by auto
  let ?b2 = "b1\<lparr>buffer := Append (buffer b1) e\<rparr>"
  have br: "Broadcast b1 e = Inr ?b2" by (rule Broadcast_closed [OF n])
  from Broadcast_ok [OF ok1 br] have ok2: "broadcaster_ok ?b2" by blast
  from ok1 bs1 have cap: "capacity (buffer b1) = B" by (simp add: broadcaster_ok_def)
  from Append_lastN [of "buffer b1" "broadcasts opers" e] it bf cap bs1
  have it2: "items (buffer ?b2) = lastN (bufferSize ?b2) (broadcasts opers @ [e])" by simp
  have n2: "channels ?b2 = None" using n by simp
  have "\<forall>later b2. performAll ?b2 later = Inr b2 \<longrightarrow>
          (\<exists>b3 c. Attach b2 = Inr (b3, c) \<and> c < length (heap b3) \<and> closed (heap b3 ! c)
             \<and> queue (heap b3 ! c) = lastN B (broadcasts opers @ e # broadcasts later)
             \<and> (length (broadcasts later) < B \<longrightarrow> e \<in> set (queue (heap b3 ! c)))
             \<and> (B = 0 \<longrightarrow> queue (heap b3 ! c) = []))"
  proof (intro allI impI)
    fix later b2 assume p: "performAll ?b2 later = Inr b2"
    from performAll_inv [OF ok2 it2 p] bs1
    have ok3: "broadcaster_ok b2"
      and it3: "items (buffer b2) = lastN B (broadcasts opers @ e # broadcasts later)"
      by simp_all
    from performAll_closed [OF n2 p] have n3: "channels b2 = None" .
    from Attach_ok [OF ok3] n3 obtain b3 ch where a: "Attach b2 = Inr (b3, length (heap b2))"
      and h: "heap b3 = heap b2 @ [ch]" and q: "queue ch = Range_buffer (buffer b2)"
      and cl: "closed ch"
      by auto
    from q it3 have q': "queue ch = lastN B (broadcasts opers @ e # broadcasts later)"
      by (simp add: Range_buffer_def)
    have k: "length (broadcasts later) < B \<longrightarrow> e \<in> set (queue ch)"
      using q' lastN_keeps [of "broadcasts later" B e "broadcasts opers"] by simp
    have z: "B = 0 \<longrightarrow> queue ch = []" using q' by (simp add: lastN_def)
    show "\<exists>b3 c. Attach b2 = Inr (b3, c) \<and> c < length (heap b3) \<and> closed (heap b3 ! c)
             \<and> queue (heap b3 ! c) = lastN B (broadcasts opers @ e # broadcasts later)
             \<and> (length (broadcasts later) < B \<longrightarrow> e \<in> set (queue (heap b3 ! c)))
             \<and> (B = 0 \<longrightarrow> queue (heap b3 ! c) = [])"
      using a h q' cl k z by (intro exI [of _ b3] exI [of _ "length (heap b2)"]) simp
  qed
  with c n br Close_closed [OF n] show ?thesis by blast
qed

theorem Close_idempotent_witness:
  "\<exists>b b1 b2 b3 c. performAll (newExitEventBroadcaster 2)
        [OpAttach, OpBroadcast (ExitEvent (Member ''m1'' 1) None)] = Inr b
     \<and> Close b = Inr b1 \<and> channels b1 = None \<and> Close b1 = Inr b1
     \<and> Broadcast b1 (ExitEvent (Member ''m2'' 2) None) =
         Inr (b1\<lparr>buffer := Append (buffer b1) (ExitEvent (Member ''m2'' 2) None)\<rparr>)
     \<and> performAll (b1\<lparr>buffer := Append (buffer b1) (ExitEvent (Member ''m2'' 2) None)\<rparr>)
         [OpBroadcast (ExitEvent (Member ''m3'' 3) None), OpClose] = Inr b2
     \<and> Attach b2 = Inr (b3, c)
     \<and> queue (heap b3 ! c) =
         [ExitEvent (Member ''m2'' 2) None, ExitEvent (Member ''m3'' 3) None]"
proof -
  let ?e = "ExitEvent (Member ''m2'' 2) None"
  let ?later = "[OpBroadcast (ExitEvent (Member ''m3'' 3) None), OpClose]"
  obtain b where b: "performAll (newExitEventBroadcaster 2)
        [OpAttach, OpBroadcast (ExitEvent (Member ''m1'' 1) None)] = Inr b"
    by (simp add: broadcaster_simps)
  from Close_idempotent [OF b, of ?e] obtain b1 where c: "Close b = Inr b1"
    "channels b1 = None" "Close b1 = Inr b1"
    "Broadcast b1 ?e = Inr (b1\<lparr>buffer := Append (buffer b1) ?e\<rparr>)"
    and l: "\<forall>later b2. performAll (b1\<lparr>buffer := Append (buffer b1) ?e\<rparr>) later = Inr b2 \<longrightarrow>
          (\<exists>b3 c. Attach b2 = Inr (b3, c) \<and> c < length (heap b3) \<and> closed (heap b3 ! c)
             \<and> queue (heap b3 ! c) = lastN 2
                  (broadcasts [OpAttach, OpBroadcast (ExitEvent (Member ''m1'' 1) None)]
                     @ ?e # broadcasts later)
             \<and> (length (broadcasts later) < 2 \<longrightarrow> ?e \<in> set (queue (heap b3 ! c)))
             \<and> (2 = (0::nat) \<longrightarrow> queue (heap b3 ! c) = []))"
    by blast
  from b c(1) have "b1 = \<lparr>channels = None,
      buffer = \<lparr>items = [ExitEvent (Member ''m1'' 1) None], capacity = 2\<rparr>, bufferSize = 2,
      heap = [\<lparr>cap = 2, queue = [ExitEvent (Member ''m1'' 1) None], received = [],
               waiting = 0, closed = True\<rparr>]\<rparr>"
    by (auto simp: broadcaster_simps)
  then obtain b2 where p: "performAll (b1\<lparr>buffer := Append (buffer b1) ?e\<rparr>) ?later = Inr b2"
    by (simp add: broadcaster_simps)
  from l [rule_format, OF p] obtain b3 ch where "Attach b2 = Inr (b3, ch)"
    "queue (heap b3 ! ch) = lastN 2
                  (broadcasts [OpAttach, OpBroadcast (ExitEvent (Member ''m1'' 1) None)]
                     @ ?e # broadcasts ?later)"
    by blast
  with b c p show ?thesis by (simp add: lastN_def)
qed

text \<open>
  With buffer size 0 the event broadcast after \<open>Close\<close> is not replayed by a later
  \<open>Attach\<close>; with buffer size 1 it is not replayed once another event has been
  broadcast.
\<close>

theorem Close_replay_counterexample:
  "(\<exists>b1 b2 b3 c. Close (newExitEventBroadcaster 0) = Inr b1
      \<and> Broadcast b1 (ExitEvent (Member ''m1'' 1) None) = Inr b2
      \<and> Attach b2 = Inr (b3, c) \<and> c < length (heap b3)
      \<and> stream (heap b3 ! c) = [])
   \<and> (\<exists>b1 b2 b3 b4 c. Close (newExitEventBroadcaster 1) = Inr b1
      \<and> Broadcast b1 (ExitEvent (Member ''m1'' 1) None) = Inr b2
      \<and> Broadcast b2 (ExitEvent (Member ''m2'' 2) None) = Inr b3
      \<and> Attach b3 = Inr (b4, c) \<and> c < length (heap b4)
      \<and> stream (heap b4 ! c) = [ExitEvent (Member ''m2'' 2) None])"
  by (simp add: broadcaster_simps stream_def)

section \<open>The parallel group: what Run returns\<close>

lemma stopLoop_complete:
  assumes "distinct (map fst sels)"
    and "\<forall>c \<in> set (map fst sels). c < length live \<and> c \<notin> set zeroed"
    and "length zeroed + length sels = length live" and "sels \<noteq> []"
  shows "stopLoop live zeroed tr occ sels =
     Finished (tr @ map (\<lambda>(c, e). ExitEvent (live ! c) e) sels,
               occ \<or> (\<exists>e \<in> snd ` set sels. e \<noteq> None))"
  using assms
proof (induction sels arbitrary: zeroed tr occ)
  case Nil
  then show ?case by simp
next
  case (Cons s rest)
  obtain c e where s: "s = (c, e)" by (cases s)
  from Cons.prems(2) s have c: "c < length live" "c \<notin> set zeroed" by auto
  show ?case
  proof (cases "rest = []")
    case True
    with Cons.prems(3) have "length zeroed + 1 = length live" by simp
    with c s True show ?thesis by simp
  next
    case False
    with Cons.prems(3) have ne: "length zeroed + 1 \<noteq> length live" by (cases rest) auto
    have d: "distinct (map fst rest)" using Cons.prems(1) by simp
    have v: "\<forall>c' \<in> set (map fst rest). c' < length live \<and> c' \<notin> set (c # zeroed)"
      using Cons.prems(1,2) s by auto
    have l: "length (c # zeroed) + length rest = length live" using Cons.prems(3) by simp
    from Cons.IH [OF d v l False, of "tr @ [ExitEvent (live ! c) e]" "occ \<or> e \<noteq> None"]
    show ?thesis using c s ne by (auto simp: Let_def)
  qed
qed

lemma stopLoop_no_live: "stopLoop [] zeroed tr occ sels \<noteq> Finished r"
  by (cases sels) auto

lemma stop_returns:
  assumes "liveMembers g \<noteq> []" and "length sels = length (liveMembers g)"
    and "distinct (map fst sels)"
    and "\<forall>c \<in> set (map fst sels). c < length (liveMembers g)"
  shows "stop g sig errTrace sels =
     Finished
       (if (case errTrace of None \<Rightarrow> [] | Some t \<Rightarrow> t) \<noteq> []
            \<or> (\<exists>e \<in> snd ` set sels. e \<noteq> None)
        then Some ((case errTrace of None \<Rightarrow> [] | Some t \<Rightarrow> t)
                     @ map (\<lambda>(c, e). ExitEvent (liveMembers g ! c) e) sels)
        else None,
        stopSignals g sig)"
proof -
  from assms(1,2) have ne: "sels \<noteq> []" by auto
  have v: "\<forall>c \<in> set (map fst sels). c < length (liveMembers g) \<and> c \<notin> set []"
    using assms(4) by simp
  have l: "length ([]::nat list) + length sels = length (liveMembers g)"
    using assms(2) by simp
  show ?thesis
    unfolding stop_def Let_def stopLoop_complete [OF assms(3) v l ne]
    by simp
qed

text \<open>With no live member \<open>stop\<close> does not return.\<close>

lemma stop_no_live_member:
  "liveMembers g = [] \<Longrightarrow> stop g sig errTrace sels \<noteq> Finished r"
  using stopLoop_no_live
  by (auto simp: stop_def Let_def split: result.splits)

text \<open>
  The startup hands over the nil trace, or the exit of the one member that exited before
  all were ready; it changes the pool only.
\<close>

lemma startLoop_trace:
  "startLoop g zeroed sels = Finished (sig, errTrace, g') \<Longrightarrow>
     members g' = members g \<and> terminationSignal g' = terminationSignal g
     \<and> (errTrace = None
         \<or> (\<exists>i e. i < length (members g) \<and> errTrace = Some [ExitEvent (members g ! i) e]))"
proof (induction g zeroed sels rule: startLoop.induct)
  case (4 g zeroed i sels)
  let ?g = "g\<lparr>pool := setPool (Name (members g ! i)) (Background (members g ! i)) (pool g)\<rparr>"
  from "4.prems" have ok: "i < length (members g) \<and> i \<notin> set zeroed"
    by (auto split: if_splits)
  show ?case
  proof (cases "length zeroed + 1 = length (members g)")
    case True
    with "4.prems" ok show ?thesis by (auto simp: Let_def)
  next
    case False
    with "4.prems" ok have "startLoop ?g (i # zeroed) sels = Finished (sig, errTrace, g')"
      by (simp add: Let_def)
    from "4.IH" [OF ok refl False this] show ?thesis by simp
  qed
qed (auto split: if_splits)

lemma parallelRun_stop:
  assumes start: "parallelStart g startSels = Finished (sig, errTrace, g')"
    and wait: "errTrace = None \<and> sig = None \<longrightarrow> (\<exists>s. waitForSignal g' waitSels = Finished s)"
    and live: "liveMembers g' \<noteq> []" "length stopSels = length (liveMembers g')"
      "distinct (map fst stopSels)" "\<forall>c \<in> set (map fst stopSels). c < length (liveMembers g')"
  shows "parallelRun g None startSels waitSels stopSels =
     Finished (TraceError
       (if errTrace \<noteq> None \<or> (\<exists>e \<in> snd ` set stopSels. e \<noteq> None)
        then Some ((case errTrace of None \<Rightarrow> [] | Some t \<Rightarrow> t)
                     @ map (\<lambda>(c, e). ExitEvent (liveMembers g' ! c) e) stopSels)
        else None))"
proof -
  from startLoop_trace [OF start [unfolded parallelStart_def]]
  have t0: "errTrace \<noteq> None \<longleftrightarrow> (case errTrace of None \<Rightarrow> [] | Some t \<Rightarrow> t) \<noteq> []"
    by auto
  have s: "\<And>s. stop g' s errTrace stopSels =
     Finished
       (if errTrace \<noteq> None \<or> (\<exists>e \<in> snd ` set stopSels. e \<noteq> None)
        then Some ((case errTrace of None \<Rightarrow> [] | Some t \<Rightarrow> t)
                     @ map (\<lambda>(c, e). ExitEvent (liveMembers g' ! c) e) stopSels)
        else None,
        stopSignals g' s)"
    unfolding stop_returns [OF live] t0 by simp
  have "\<exists>s. parallelRun g None startSels waitSels stopSels =
      (case stop g' s errTrace stopSels of
         Finished (t, acts) \<Rightarrow> Finished (TraceError t)
       | Blocking \<Rightarrow> Blocking
       | NotSelectable \<Rightarrow> NotSelectable)"
  proof (cases "errTrace = None \<and> sig = None")
    case True
    with wait obtain s' where "waitForSignal g' waitSels = Finished s'" by blast
    with True start show ?thesis by (auto simp: parallelRun_def)
  next
    case False
    with start show ?thesis by (auto simp: parallelRun_def)
  qed
  then show ?thesis unfolding s by auto
qed

text \<open>
  C7. \<open>Run\<close> of the parallel group, once the startup has ended, a signal has been
  settled on and every member of the pool (there is at least one) has exited. If a
  member exited during the startup, whatever its error, or if an exit collected by
  \<open>stop\<close> carries an error, \<open>Run\<close> returns the trace itself: the exit of the startup,
  if there is one, followed by the exits of the members of the pool in the order of
  their arrival.
\<close>

theorem parallelRun_returns_trace:
  assumes "parallelStart g startSels = Finished (sig, errTrace, g')"
    and "errTrace = None \<and> sig = None \<longrightarrow> (\<exists>s. waitForSignal g' waitSels = Finished s)"
    and "liveMembers g' \<noteq> []" and "length stopSels = length (liveMembers g')"
    and "distinct (map fst stopSels)"
    and "\<forall>c \<in> set (map fst stopSels). c < length (liveMembers g')"
    and "errTrace \<noteq> None \<or> (\<exists>e \<in> snd ` set stopSels. e \<noteq> None)"
  shows "parallelRun g None startSels waitSels stopSels =
       Finished (TraceError
         (Some ((case errTrace of None \<Rightarrow> [] | Some t \<Rightarrow> t)
                  @ map (\<lambda>(c, e). ExitEvent (liveMembers g' ! c) e) stopSels)))
     \<and> (errTrace = None
         \<or> (\<exists>i e. i < length (members g) \<and> errTrace = Some [ExitEvent (members g ! i) e]))"
  using parallelRun_stop [OF assms(1-6)] assms(7)
    startLoop_trace [OF assms(1) [unfolded parallelStart_def]]
  by simp

lemmas parallel_simps =
  NewParallel_def parallelRun_def parallelStart_def stop_def liveMembers_def stopSignals_def
  setPool_def waitForSignal_def Let_def

theorem parallelRun_returns_trace_witness:
  "parallelRun (NewParallel (Some ''stop'') [Member ''a'' 0, Member ''b'' 1]) None
      [ReadyChosen 0, ReadyChosen 1] [SignalArrived ''interrupt'']
      [(1, Some ''boom''), (0, None)] =
     Finished (TraceError (Some [ExitEvent (Member ''b'' 1) (Some ''boom''),
                                 ExitEvent (Member ''a'' 0) None]))"
proof -
  let ?g = "NewParallel (Some ''stop'') [Member ''a'' 0, Member ''b'' 1]"
  let ?g' = "\<lparr>terminationSignal = Some ''stop'',
      pool = [(''a'', Background (Member ''a'' 0)), (''b'', Background (Member ''b'' 1))],
      members = [Member ''a'' 0, Member ''b'' 1]\<rparr>"
  have start: "parallelStart ?g [ReadyChosen 0, ReadyChosen 1] = Finished (None, None, ?g')"
    by (simp add: NewParallel_def parallelStart_def setPool_def Let_def)
  from parallelRun_returns_trace [OF start, of "[SignalArrived ''interrupt'']"
      "[(1, Some ''boom''), (0, None)]", THEN conjunct1]
  show ?thesis by (simp add: liveMembers_def waitForSignal_def)
qed

text \<open>
  What the theorem leaves open. When no member exited during the startup and every
  exit collected carries a nil error, \<open>stop\<close> returns the nil trace, and \<open>Run\<close>
  returns it converted to \<^verbatim>\<open>error\<close>: an interface value that is not nil. \<open>Run\<close>
  returns the nil error in no case.
\<close>

lemma parallelRun_clean:
  assumes "parallelStart g startSels = Finished (sig, None, g')"
    and "sig = None \<longrightarrow> (\<exists>s. waitForSignal g' waitSels = Finished s)"
    and "liveMembers g' \<noteq> []" and "length stopSels = length (liveMembers g')"
    and "distinct (map fst stopSels)"
    and "\<forall>c \<in> set (map fst stopSels). c < length (liveMembers g')"
    and "\<forall>e \<in> snd ` set stopSels. e = None"
  shows "parallelRun g None startSels waitSels stopSels = Finished (TraceError None)"
proof -
  have w: "None = None \<and> sig = None \<longrightarrow> (\<exists>s. waitForSignal g' waitSels = Finished s)"
    using assms(2) by simp
  from parallelRun_stop [OF assms(1) w assms(3-6)] assms(7) show ?thesis by auto
qed

lemma parallelRun_never_nil:
  "parallelRun g validated startSels waitSels stopSels \<noteq> Finished NilError"
  by (auto simp: parallelRun_def Let_def split: option.splits result.splits prod.splits)

text \<open>
  When no member is in the pool (the only member exited before it was ready, or a
  signal arrived before any member was ready) \<open>Run\<close> does not return.
\<close>

lemma parallelRun_no_live_member:
  assumes "parallelStart g startSels = Finished (sig, errTrace, g')"
    and "liveMembers g' = []"
  shows "parallelRun g None startSels waitSels stopSels \<noteq> Finished r"
  using assms stop_no_live_member [OF assms(2)]
  by (auto simp: parallelRun_def Let_def split: result.splits prod.splits)

text \<open>
  A run in which every exit carries a nil error and \<open>Run\<close> still returns the trace:
  b gets ready, then a exits with nil before it is ready, so the startup hands a
  one-element trace to \<open>stop\<close>, which signals b and collects its nil exit.
\<close>

theorem nil_errors_trace_returned:
  "parallelRun (NewParallel (Some ''stop'') [Member ''a'' 0, Member ''b'' 1]) None
      [ReadyChosen 1, WaitChosen 0 None] [] [(0, None)] =
     Finished (TraceError
       (Some [ExitEvent (Member ''a'' 0) None, ExitEvent (Member ''b'' 1) None]))"
  by (simp add: parallel_simps)

section \<open>The ordered controller: how the startup ends\<close>

lemma orderedStart_sent:
  "fst (orderedStart (m # ms) ((StartSent, True) # obs)) =
     SendInsert m # RecvEntranceEvent # fst (orderedStart ms obs)"
  "snd (orderedStart (m # ms) ((StartSent, True) # obs)) = snd (orderedStart ms obs)"
  by (simp_all split: prod.splits)

lemma orderedStrategy_sent:
  "fst (orderedStrategy (m # ms) ((StrategySent, True) # obs)) =
     SendInsert m # RecvEntranceEvent # fst (orderedStrategy ms obs)"
  "snd (orderedStrategy (m # ms) ((StrategySent, True) # obs)) = snd (orderedStrategy ms obs)"
  by (simp_all split: prod.splits)

lemma orderedStart_abort:
  "snd (orderedStart ms obs) = AbortedOnClose \<longleftrightarrow>
     (\<exists>k. k < length ms \<and> k < length obs \<and> fst (obs ! k) = StartClosed
        \<and> (\<forall>j < k. obs ! j = (StartSent, True)))"
proof (induction ms obs rule: orderedStart.induct)
  case (1 obs)
  then show ?case by simp
next
  case (2 member ms)
  then show ?case by simp
next
  case (3 member ms entered obs)
  show ?case by (auto intro: exI [of _ 0])
next
  case (4 member ms obs)
  have "\<not> (\<exists>k. k < length (member # ms) \<and> k < length ((StartSent, False) # obs)
        \<and> fst (((StartSent, False) # obs) ! k) = StartClosed
        \<and> (\<forall>j < k. ((StartSent, False) # obs) ! j = (StartSent, True)))"
  proof
    assume "\<exists>k. k < length (member # ms) \<and> k < length ((StartSent, False) # obs)
        \<and> fst (((StartSent, False) # obs) ! k) = StartClosed
        \<and> (\<forall>j < k. ((StartSent, False) # obs) ! j = (StartSent, True))"
    then obtain k where k: "fst (((StartSent, False) # obs) ! k) = StartClosed"
      "\<forall>j < k. ((StartSent, False) # obs) ! j = (StartSent, True)" by blast
    show False
    proof (cases k)
      case 0
      with k(1) show False by simp
    next
      case (Suc k')
      with k(2) have "((StartSent, False) # obs) ! 0 = (StartSent, True)" by blast
      then show False by simp
    qed
  qed
  then show ?case by simp
next
  case (5 member ms obs)
  have "(\<exists>k. k < length (member # ms) \<and> k < length ((StartSent, True) # obs)
        \<and> fst (((StartSent, True) # obs) ! k) = StartClosed
        \<and> (\<forall>j < k. ((StartSent, True) # obs) ! j = (StartSent, True)))
      \<longleftrightarrow> (\<exists>k. k < length ms \<and> k < length obs \<and> fst (obs ! k) = StartClosed
        \<and> (\<forall>j < k. obs ! j = (StartSent, True)))" (is "?L \<longleftrightarrow> ?R")
  proof
    assume ?L
    then obtain k where k: "k < length (member # ms)" "k < length ((StartSent, True) # obs)"
      "fst (((StartSent, True) # obs) ! k) = StartClosed"
      "\<forall>j < k. ((StartSent, True) # obs) ! j = (StartSent, True)" by blast
    from k(3) obtain k' where k': "k = Suc k'" by (cases k) auto
    have "\<forall>j < k'. obs ! j = (StartSent, True)"
    proof (intro allI impI)
      fix j assume "j < k'"
      then have "Suc j < k" using k' by simp
      with k(4) have "((StartSent, True) # obs) ! Suc j = (StartSent, True)" by blast
      then show "obs ! j = (StartSent, True)" by simp
    qed
    with k k' show ?R by (intro exI [of _ k']) simp
  next
    assume ?R
    then obtain k where k: "k < length ms" "k < length obs" "fst (obs ! k) = StartClosed"
      "\<forall>j < k. obs ! j = (StartSent, True)" by blast
    have "\<forall>j < Suc k. ((StartSent, True) # obs) ! j = (StartSent, True)"
      using k(4) by (auto simp: nth_Cons')
    with k show ?L by (intro exI [of _ "Suc k"]) simp
  qed
  with 5 show ?case by (simp add: orderedStart_sent del: orderedStart.simps)
qed

lemma orderedStart_no_exit_abort: "snd (orderedStart ms obs) \<noteq> AbortedOnExit tr"
  by (induction ms obs rule: orderedStart.induct)
    (auto simp: orderedStart_sent simp del: orderedStart.simps(5))

lemma alternation_Cons:
  "alternation (m # ms) = SendInsert m # RecvEntranceEvent # alternation ms"
  by (simp add: alternation_def)

lemma alternation_Nil: "alternation [] = []"
  by (simp add: alternation_def)

lemma orderedStart_prefix:
  "orderedStart (pre @ post) (replicate (length pre) (StartSent, True) @ rest) =
     (alternation pre @ fst (orderedStart post rest), snd (orderedStart post rest))"
proof (induction pre)
  case Nil
  show ?case by (simp add: alternation_Nil)
next
  case (Cons m pre)
  have "orderedStart ((m # pre) @ post)
        (replicate (length (m # pre)) (StartSent, True) @ rest) =
      (fst (orderedStart (m # pre @ post)
              ((StartSent, True) # replicate (length pre) (StartSent, True) @ rest)),
       snd (orderedStart (m # pre @ post)
              ((StartSent, True) # replicate (length pre) (StartSent, True) @ rest)))"
    by (simp del: orderedStart.simps)
  also have "\<dots> = (alternation (m # pre) @ fst (orderedStart post rest),
      snd (orderedStart post rest))"
    unfolding orderedStart_sent Cons.IH by (simp add: alternation_Cons)
  finally show ?case .
qed

lemma orderedStrategy_prefix:
  "orderedStrategy (pre @ post) (replicate (length pre) (StrategySent, True) @ rest) =
     (alternation pre @ fst (orderedStrategy post rest), snd (orderedStrategy post rest))"
proof (induction pre)
  case Nil
  show ?case by (simp add: alternation_Nil)
next
  case (Cons m pre)
  have "orderedStrategy ((m # pre) @ post)
        (replicate (length (m # pre)) (StrategySent, True) @ rest) =
      (fst (orderedStrategy (m # pre @ post)
              ((StrategySent, True) # replicate (length pre) (StrategySent, True) @ rest)),
       snd (orderedStrategy (m # pre @ post)
              ((StrategySent, True) # replicate (length pre) (StrategySent, True) @ rest)))"
    by (simp del: orderedStrategy.simps)
  also have "\<dots> = (alternation (m # pre) @ fst (orderedStrategy post rest),
      snd (orderedStrategy post rest))"
    unfolding orderedStrategy_sent Cons.IH by (simp add: alternation_Cons)
  finally show ?case .
qed

lemma orderedStart_rounds:
  "orderedStart (pre @ member # post) (replicate (length pre) (StartSent, True)) =
     (alternation pre, StillWaiting)"
  "orderedStart (pre @ member # post)
       (replicate (length pre) (StartSent, True) @ (StartSent, False) # rest) =
     (alternation pre @ [SendInsert member], StillWaiting)"
  "orderedStart (pre @ member # post)
       (replicate (length pre) (StartSent, True) @ (StartClosed, entered) # rest) =
     (alternation pre, AbortedOnClose)"
  "orderedStart pre (replicate (length pre) (StartSent, True) @ rest) =
     (alternation pre @ [CloseClient], StartupDone)"
  using orderedStart_prefix [of pre "member # post" "[]"]
    orderedStart_prefix [of pre "member # post" "(StartSent, False) # rest"]
    orderedStart_prefix [of pre "member # post" "(StartClosed, entered) # rest"]
    orderedStart_prefix [of pre "[]" rest]
  by simp_all

lemma orderedStrategy_rounds:
  "orderedStrategy (pre @ member # post) (replicate (length pre) (StrategySent, True)) =
     (alternation pre, StillWaiting)"
  "orderedStrategy (pre @ member # post)
       (replicate (length pre) (StrategySent, True) @ (StrategySent, False) # rest) =
     (alternation pre @ [SendInsert member], StillWaiting)"
  "orderedStrategy (pre @ member # post)
       (replicate (length pre) (StrategySent, True) @ (StrategyClosed, entered) # rest) =
     (alternation pre, AbortedOnClose)"
  "orderedStrategy (pre @ member # post)
       (replicate (length pre) (StrategySent, True) @ (StrategyExit exit, entered) # rest) =
     (alternation pre, AbortedOnExit [exit])"
  "orderedStrategy pre (replicate (length pre) (StrategySent, True) @ rest) =
     (alternation pre @ [CloseClient], StartupDone)"
  using orderedStrategy_prefix [of pre "member # post" "[]"]
    orderedStrategy_prefix [of pre "member # post" "(StrategySent, False) # rest"]
    orderedStrategy_prefix [of pre "member # post" "(StrategyClosed, entered) # rest"]
    orderedStrategy_prefix [of pre "member # post" "(StrategyExit exit, entered) # rest"]
    orderedStrategy_prefix [of pre "[]" rest]
  by simp_all

text \<open>The first round that is not a completed send, when it comes before the members run out.\<close>

lemma first_round_Cons:
  assumes "\<not> P (sel, True)"
  shows "(\<exists>k. k < length (m # ms) \<and> k < length ((sel, True) # obs)
            \<and> P (((sel, True) # obs) ! k) \<and> (\<forall>j < k. ((sel, True) # obs) ! j = (sel, True)))
     \<longleftrightarrow> (\<exists>k. k < length ms \<and> k < length obs \<and> P (obs ! k)
            \<and> (\<forall>j < k. obs ! j = (sel, True)))" (is "?L \<longleftrightarrow> ?R")
proof
  assume ?L
  then obtain k where k: "k < length (m # ms)" "k < length ((sel, True) # obs)"
    "P (((sel, True) # obs) ! k)" "\<forall>j < k. ((sel, True) # obs) ! j = (sel, True)" by blast
  from k(3) assms obtain k' where k': "k = Suc k'" by (cases k) auto
  have "\<forall>j < k'. obs ! j = (sel, True)"
  proof (intro allI impI)
    fix j assume "j < k'"
    then have "Suc j < k" using k' by simp
    with k(4) have "((sel, True) # obs) ! Suc j = (sel, True)" by blast
    then show "obs ! j = (sel, True)" by simp
  qed
  with k k' show ?R by (intro exI [of _ k']) simp
next
  assume ?R
  then obtain k where k: "k < length ms" "k < length obs" "P (obs ! k)"
    "\<forall>j < k. obs ! j = (sel, True)" by blast
  have "\<forall>j < Suc k. ((sel, True) # obs) ! j = (sel, True)"
    using k(4) by (auto simp: nth_Cons')
  with k show ?L by (intro exI [of _ "Suc k"]) simp
qed

lemma first_round_other:
  assumes "ob \<noteq> (sel, True)"
  shows "(\<exists>k. k < length (m # ms) \<and> k < length (ob # obs)
            \<and> P ((ob # obs) ! k) \<and> (\<forall>j < k. (ob # obs) ! j = (sel, True)))
     \<longleftrightarrow> P ob" (is "?L \<longleftrightarrow> ?R")
proof
  assume ?L
  then obtain k where k: "P ((ob # obs) ! k)" "\<forall>j < k. (ob # obs) ! j = (sel, True)" by blast
  show ?R
  proof (cases k)
    case 0
    with k(1) show ?thesis by simp
  next
    case (Suc k')
    with k(2) have "(ob # obs) ! 0 = (sel, True)" by blast
    with assms show ?thesis by simp
  qed
next
  assume ?R
  then show ?L by (intro exI [of _ 0]) simp
qed

lemma orderedStrategy_abort_close:
  "snd (orderedStrategy ms obs) = AbortedOnClose \<longleftrightarrow>
     (\<exists>k. k < length ms \<and> k < length obs \<and> fst (obs ! k) = StrategyClosed
        \<and> (\<forall>j < k. obs ! j = (StrategySent, True)))"
proof (induction ms obs rule: orderedStrategy.induct)
  case (1 obs)
  then show ?case by simp
next
  case (2 member ms)
  then show ?case by simp
next
  case (3 member ms exit entered obs)
  from first_round_other [of "(StrategyExit exit, entered)" StrategySent member ms obs
      "\<lambda>ob. fst ob = StrategyClosed"]
  show ?case by simp
next
  case (4 member ms entered obs)
  from first_round_other [of "(StrategyClosed, entered)" StrategySent member ms obs
      "\<lambda>ob. fst ob = StrategyClosed"]
  show ?case by simp
next
  case (5 member ms obs)
  from first_round_other [of "(StrategySent, False)" StrategySent member ms obs
      "\<lambda>ob. fst ob = StrategyClosed"]
  show ?case by simp
next
  case (6 member ms obs)
  from first_round_Cons [of "\<lambda>ob. fst ob = StrategyClosed" StrategySent member ms obs] 6
  show ?case by (simp add: orderedStrategy_sent del: orderedStrategy.simps)
qed

lemma orderedStrategy_abort_exit:
  "snd (orderedStrategy ms obs) = AbortedOnExit tr \<longleftrightarrow>
     (\<exists>k. k < length ms \<and> k < length obs
        \<and> (\<exists>exit. fst (obs ! k) = StrategyExit exit \<and> tr = [exit])
        \<and> (\<forall>j < k. obs ! j = (StrategySent, True)))"
proof (induction ms obs rule: orderedStrategy.induct)
  case (1 obs)
  then show ?case by simp
next
  case (2 member ms)
  then show ?case by simp
next
  case (3 member ms exit entered obs)
  from first_round_other [of "(StrategyExit exit, entered)" StrategySent member ms obs
      "\<lambda>ob. \<exists>exit. fst ob = StrategyExit exit \<and> tr = [exit]"]
  show ?case by auto
next
  case (4 member ms entered obs)
  from first_round_other [of "(StrategyClosed, entered)" StrategySent member ms obs
      "\<lambda>ob. \<exists>exit. fst ob = StrategyExit exit \<and> tr = [exit]"]
  show ?case by simp
next
  case (5 member ms obs)
  from first_round_other [of "(StrategySent, False)" StrategySent member ms obs
      "\<lambda>ob. \<exists>exit. fst ob = StrategyExit exit \<and> tr = [exit]"]
  show ?case by simp
next
  case (6 member ms obs)
  from first_round_Cons [of "\<lambda>ob. \<exists>exit. fst ob = StrategyExit exit \<and> tr = [exit]"
      StrategySent member ms obs] 6
  show ?case by (simp add: orderedStrategy_sent del: orderedStrategy.simps)
qed

text \<open>The machine and the loops agree on how the startup ends.\<close>

lemma ordered_round_stuck:
  "\<forall>ob \<in> set obs. ordered_step w pc (fst ob) = None \<Longrightarrow>
     foldl (ordered_round w) pc obs = pc"
  by (induction obs) (simp_all add: ordered_round_def)

lemma select_obs_stuck:
  "pc = OrderedSelect [] \<or> pc = OrderedAwaitEntrance ms \<or> pc = OrderedReturnedOnClose
      \<or> pc = OrderedReturnedOnExit tr \<Longrightarrow>
   foldl (ordered_round w) pc (map (\<lambda>(s, e). (select_obs s, e)) obs) = pc"
  "pc = OrderedSelect [] \<or> pc = OrderedAwaitEntrance ms \<or> pc = OrderedReturnedOnClose
      \<or> pc = OrderedReturnedOnExit tr \<Longrightarrow>
   foldl (ordered_round w) pc (map (\<lambda>(s, e). (start_select_obs s, e)) obs') = pc"
proof -
  assume pc: "pc = OrderedSelect [] \<or> pc = OrderedAwaitEntrance ms
      \<or> pc = OrderedReturnedOnClose \<or> pc = OrderedReturnedOnExit tr"
  have "\<And>s. ordered_step w pc (select_obs s) = None"
  proof -
    fix s show "ordered_step w pc (select_obs s) = None" using pc by (cases s) auto
  qed
  then show "foldl (ordered_round w) pc (map (\<lambda>(s, e). (select_obs s, e)) obs) = pc"
    by (intro ordered_round_stuck) auto
  have "\<And>s. ordered_step w pc (start_select_obs s) = None"
  proof -
    fix s show "ordered_step w pc (start_select_obs s) = None" using pc by (cases s) auto
  qed
  then show "foldl (ordered_round w) pc (map (\<lambda>(s, e). (start_select_obs s, e)) obs') = pc"
    by (intro ordered_round_stuck) auto
qed

lemma ordered_round_simps:
  "ordered_round True (OrderedSelect (m # ms)) (OrderedSeesExit x, e) = OrderedReturnedOnExit [x]"
  "ordered_round w (OrderedSelect (m # ms)) (OrderedSeesClosed, e) = OrderedReturnedOnClose"
  "ordered_round w (OrderedSelect (m # ms)) (OrderedSent, False) = OrderedAwaitEntrance ms"
  "ordered_round w (OrderedSelect (m # ms)) (OrderedSent, True) = OrderedSelect ms"
  by (simp_all add: ordered_round_def)

lemma orderedStrategy_machine:
  "snd (orderedStrategy ms obs) =
     ordered_status (foldl (ordered_round True) (OrderedSelect ms)
       (map (\<lambda>(s, e). (select_obs s, e)) obs))"
proof (induction ms obs rule: orderedStrategy.induct)
  case (1 obs)
  show ?case using select_obs_stuck(1) [of "OrderedSelect []"] by simp
next
  case (2 member ms)
  show ?case by simp
next
  case (3 member ms exit entered obs)
  show ?case using select_obs_stuck(1) [of "OrderedReturnedOnExit [exit]" _ "[exit]"]
    by (simp add: ordered_round_simps)
next
  case (4 member ms entered obs)
  show ?case using select_obs_stuck(1) [of OrderedReturnedOnClose]
    by (simp add: ordered_round_simps)
next
  case (5 member ms obs)
  show ?case using select_obs_stuck(1) [of "OrderedAwaitEntrance ms" ms]
    by (simp add: ordered_round_simps)
next
  case (6 member ms obs)
  then show ?case
    by (simp add: orderedStrategy_sent ordered_round_simps del: orderedStrategy.simps)
qed

lemma orderedStart_machine:
  "snd (orderedStart ms obs) =
     ordered_status (foldl (ordered_round False) (OrderedSelect ms)
       (map (\<lambda>(s, e). (start_select_obs s, e)) obs))"
proof (induction ms obs rule: orderedStart.induct)
  case (1 obs)
  show ?case using select_obs_stuck(2) [of "OrderedSelect []"] by simp
next
  case (2 member ms)
  show ?case by simp
next
  case (3 member ms entered obs)
  show ?case using select_obs_stuck(2) [of OrderedReturnedOnClose]
    by (simp add: ordered_round_simps)
next
  case (4 member ms obs)
  show ?case using select_obs_stuck(2) [of "OrderedAwaitEntrance ms" ms]
    by (simp add: ordered_round_simps)
next
  case (5 member ms obs)
  then show ?case
    by (simp add: orderedStart_sent ordered_round_simps del: orderedStart.simps)
qed

section \<open>The serial group: one member at a time\<close>

lemma drop_eq_ConsD: "drop n xs = y # ys \<Longrightarrow> n < length xs \<and> xs ! n = y \<and> drop (Suc n) xs = ys"
proof -
  assume a: "drop n xs = y # ys"
  then have n: "n < length xs" by (cases "n < length xs") auto
  from a n have "y # ys = xs ! n # drop (Suc n) xs" by (simp add: Cons_nth_drop_Suc)
  with n show ?thesis by simp
qed

lemma ctl_send:
  assumes l: "logs_ok ms ins lg t" and c: "ctl_ok ms ins lg t obs (SerialSelect (m # rest))"
  shows "logs_ok ms (ins @ [m]) lg t
     \<and> ctl_ok ms (ins @ [m]) lg t (obs @ [(m, Background m, False)]) (SerialAwaitExit rest)"
proof -
  from c have d: "m # rest = drop (length ins) ms" and o: "obs = []"
    and ll: "length lg = length ins" and t: "t = length ins"
    and nil: "\<forall>j < length lg. Err (lg ! j) = None"
    by (simp_all add: ctl_ok_def)
  from drop_eq_ConsD [OF d [symmetric]] have n: "length ins < length ms"
    and m: "ms ! length ins = m" and r: "drop (Suc (length ins)) ms = rest" by simp_all
  from l have p: "ins = take (length ins) ms"
    and e: "map ExitMember lg = take (length lg) ins" and tl: "t \<le> length lg"
    by (simp_all add: logs_ok_def)
  have p': "ins @ [m] = take (length (ins @ [m])) ms"
    using p n m by (simp add: take_Suc_conv_app_nth)
  have e': "map ExitMember lg = take (length lg) (ins @ [m])" using e ll by simp
  have a': "\<forall>j. Suc j < length (ins @ [m]) \<longrightarrow> Err (lg ! j) = None \<and> j < t"
    using nil ll t by simp
  have "logs_ok ms (ins @ [m]) lg t"
    unfolding logs_ok_def using p' e' tl a' by blast
  moreover have "ctl_ok ms (ins @ [m]) lg t (obs @ [(m, Background m, False)])
      (SerialAwaitExit rest)"
    using r o ll t by (auto simp: ctl_ok_def)
  ultimately show ?thesis by blast
qed

lemma ctl_closed:
  "ctl_ok ms ins lg t obs (SerialSelect (m # rest)) \<Longrightarrow> ctl_ok ms ins lg t obs SerialReturned"
  by (simp add: ctl_ok_def)

lemma find_observer:
  assumes c: "ctl_ok ms ins lg t obs pc"
    and f: "find (\<lambda>(m, pr, sent). Name m = n \<and> P sent) obs = Some (m, pr, sent)"
  shows "\<exists>rest. pc = SerialAwaitExit rest" and "Suc (length lg) = length ins"
    and "obs = [(last ins, Background (last ins), sent)]" and "m = last ins"
    and "Name (last ins) = n" and "ins \<noteq> []"
proof -
  from f have ne: "obs \<noteq> []" by auto
  with c obtain rest where pc: "pc = SerialAwaitExit rest"
    by (cases pc) (auto simp: ctl_ok_def)
  with c ne obtain s where i: "ins \<noteq> []" and sl: "Suc (length lg) = length ins"
    and o: "obs = [(last ins, Background (last ins), s)]"
    by (auto simp: ctl_ok_def)
  from f o have "m = last ins \<and> sent = s \<and> Name (last ins) = n"
    by (auto split: if_splits)
  with pc i sl o show "\<exists>rest. pc = SerialAwaitExit rest" and "Suc (length lg) = length ins"
    and "obs = [(last ins, Background (last ins), sent)]" and "m = last ins"
    and "Name (last ins) = n" and "ins \<noteq> []"
    by simp_all
qed

lemma ctl_entrance:
  assumes c: "ctl_ok ms ins lg t obs pc"
    and f: "find (\<lambda>(m, pr, sent). Name m = n \<and> \<not> sent) obs = Some (m, pr, sent)"
  shows "ctl_ok ms ins lg t (map (\<lambda>(m', pr', sent'). (m', pr', sent' \<or> Name m' = n)) obs) pc"
proof -
  note o = find_observer [OF c f]
  from o(1) obtain rest where pc: "pc = SerialAwaitExit rest" by blast
  from c pc o(2,3) show ?thesis by (auto simp: ctl_ok_def)
qed

lemma ctl_exit:
  assumes l: "logs_ok ms ins lg t" and c: "ctl_ok ms ins lg t obs pc"
    and f: "find (\<lambda>(m, pr, sent). Name m = n \<and> sent) obs = Some (m, pr, sent)"
  shows "logs_ok ms ins (lg @ [ExitEvent m err]) t
     \<and> ctl_ok ms ins (lg @ [ExitEvent m err]) t
         (filter (\<lambda>(m', pr', sent'). Name m' \<noteq> n) obs) pc"
proof -
  note o = find_observer [OF c f]
  from o(1) obtain rest where pc: "pc = SerialAwaitExit rest" by blast
  from l have p: "ins = take (length ins) ms"
    and e: "map ExitMember lg = take (length lg) ins" and tl: "t \<le> length lg"
    and a: "\<forall>j. Suc j < length ins \<longrightarrow> Err (lg ! j) = None \<and> j < t"
    by (simp_all add: logs_ok_def)
  have "length lg = length ins - 1" using o(2) by simp
  then have "take (length lg) ins = butlast ins" by (simp add: butlast_conv_take)
  with e have "map ExitMember (lg @ [ExitEvent m err]) = butlast ins @ [last ins]"
    using o(4) by simp
  also have "\<dots> = ins" using o(6) by simp
  finally have e': "map ExitMember (lg @ [ExitEvent m err]) =
      take (length (lg @ [ExitEvent m err])) ins"
    using o(2) by simp
  have a': "\<forall>j. Suc j < length ins \<longrightarrow>
      Err ((lg @ [ExitEvent m err]) ! j) = None \<and> j < t"
    using a o(2) by (auto simp: nth_append)
  have "logs_ok ms ins (lg @ [ExitEvent m err]) t"
    unfolding logs_ok_def using p e' tl a' by simp
  moreover have "ctl_ok ms ins (lg @ [ExitEvent m err]) t
         (filter (\<lambda>(m', pr', sent'). Name m' \<noteq> n) obs) pc"
    using c pc o(2,3,5) by (auto simp: ctl_ok_def)
  ultimately show ?thesis by blast
qed

lemma ctl_take:
  assumes l: "logs_ok ms ins lg t" and c: "ctl_ok ms ins lg t obs (SerialAwaitExit rest)"
    and t: "t < length lg"
  shows "logs_ok ms ins lg (Suc t)
     \<and> ctl_ok ms ins lg (Suc t) obs
         (if Err (lg ! t) \<noteq> None then SerialReturned else SerialSelect rest)"
proof -
  from l have p: "ins = take (length ins) ms"
    and e: "map ExitMember lg = take (length lg) ins" and tl: "t \<le> length lg"
    and a: "\<forall>j. Suc j < length ins \<longrightarrow> Err (lg ! j) = None \<and> j < t"
    by (simp_all add: logs_ok_def)
  from c t have r: "rest = drop (length ins) ms" and st: "Suc t = length ins"
    and ll: "length lg = length ins" and o: "obs = []"
    by (auto simp: ctl_ok_def)
  have "logs_ok ms ins lg (Suc t)"
    unfolding logs_ok_def using p e t a by auto
  moreover have "Err (lg ! t) = None \<Longrightarrow> \<forall>j < length lg. Err (lg ! j) = None"
  proof (intro allI impI)
    fix j assume n: "Err (lg ! t) = None" and j: "j < length lg"
    show "Err (lg ! j) = None"
    proof (cases "j = t")
      case True
      with n show ?thesis by simp
    next
      case False
      with j ll st have "Suc j < length ins" by simp
      with a show ?thesis by blast
    qed
  qed
  then have "ctl_ok ms ins lg (Suc t) obs
         (if Err (lg ! t) \<noteq> None then SerialReturned else SerialSelect rest)"
    using r st ll o by (auto simp: ctl_ok_def)
  ultimately show ?thesis by blast
qed

lemma ctl_nothing_to_take:
  assumes c: "ctl_ok ms ins lg t obs (SerialAwaitExit rest)" and l: "logs_ok ms ins lg t"
    and t: "\<not> t < length lg"
  shows "obs \<noteq> []"
  using assms by (auto simp: ctl_ok_def logs_ok_def)

lemma logs_append:
  "exitLog (xs @ ys) = exitLog xs @ exitLog ys"
  "started (xs @ ys) = started xs @ started ys"
  "entranceLog (xs @ ys) = entranceLog xs @ entranceLog ys"
  by (induction xs rule: exitLog.induct) auto

lemma logs_signalEach:
  "exitLog (signalEach ord sig ps) = []"
  "started (signalEach ord sig ps) = []"
  "entranceLog (signalEach ord sig ps) = []"
  by (induction ps) auto

lemma logs_Signal:
  "exitLog (snd (Signal g sig)) = []" "started (snd (Signal g sig)) = []"
  "entranceLog (snd (Signal g sig)) = []"
  by (simp_all add: Signal_def SignalRange_def logs_signalEach)

lemma Run_body_logs_other:
  assumes "Run_body p s c = Next s' \<or> Run_body p s c = Returned s'"
    and "c = RecvSignals sig \<or> c = RecvCloseNotifier \<or> c = RecvInsertClosed \<or> c = RecvEntrance e"
  shows "exitLog (effects s') = exitLog (effects s) \<and> started (effects s') = started (effects s)"
  using assms logs_Signal [of "procs s" sig]
  by (auto split: if_splits prod.splits simp: logs_append)

lemma Run_body_logs_insert:
  assumes "Run_body p s (RecvInsert m) = Next s' \<or> Run_body p s (RecvInsert m) = Returned s'"
  shows "exitLog (effects s') = exitLog (effects s)
     \<and> started (effects s') = started (effects s) @ [m]"
  using assms by (auto split: if_splits sum.splits simp: logs_append)

lemma Run_body_insert_not_Returned: "Run_body p s (RecvInsert m) \<noteq> Returned s'"
  by (auto split: if_splits sum.splits)

lemma Run_body_logs_exit:
  assumes "Run_body p s (RecvExit x) = Next s' \<or> Run_body p s (RecvExit x) = Returned s'"
  shows "exitLog (effects s') = exitLog (effects s) @ [x]
     \<and> started (effects s') = started (effects s)"
  using assms logs_Signal [of "Remove (procs s) (Name (ExitMember x))" "group_signal p"]
  by (auto simp: Let_def logs_append split: if_splits prod.splits)

lemma Run_body_Returned_empty:
  "Run_body p s c = Returned s' \<Longrightarrow> processes (procs s') = []"
  by (cases c)
    (auto simp: Let_def Length_def Complete_def Signal_def SignalRange_def
      split: if_splits prod.splits sum.splits)

lemma system_step_Returned_empty:
  assumes "system_step p st ev = Returned s"
  shows "processes (procs (engine s)) = []"
proof -
  from assms obtain c obs where "withEngine st obs (Run_body p (engine st) c) = Returned s"
    by (cases ev) (auto split: option.splits simp del: Run_body.simps)
  then obtain s0 where "Run_body p (engine st) c = Returned s0" and "engine s = s0"
    by (auto simp: withEngine_Returned)
  with Run_body_Returned_empty show ?thesis by blast
qed

lemma names_agree_empty:
  "names_agree st \<Longrightarrow> processes (procs (engine st)) = [] \<Longrightarrow> observers st = []"
  by (simp add: names_agree_def)

lemma loopTurn_Some:
  assumes "loopTurn p st ev pc = Some st'"
  shows "\<not> returned st \<and> stateOf (system_step p (sys st) ev) = Some (sys st')
     \<and> ctl st' = pc \<and> taken st' = taken st
     \<and> (returned st' \<longrightarrow> system_step p (sys st) ev = Returned (sys st'))"
  using assms by (auto simp: loopTurn_def split: if_splits turn.splits)

lemma serial_inv_loop:
  assumes inv: "serial_inv ms st" and t: "loopTurn p st ev pc = Some st'"
    and same: "pc = ctl st" and ni: "\<forall>m. ev \<noteq> Insert m"
  shows "serial_inv ms st'"
proof -
  from loopTurn_Some [OF t] have step: "stateOf (system_step p (sys st) ev) = Some (sys st')"
    and pc: "ctl st' = ctl st" and tk: "taken st' = taken st"
    and ret: "returned st' \<longrightarrow> system_step p (sys st) ev = Returned (sys st')"
    using same by simp_all
  from inv have na: "names_agree (sys st)"
    and l: "logs_ok ms (started (effects (engine (sys st))))
           (exitLog (effects (engine (sys st)))) (taken st)"
    and c: "ctl_ok ms (started (effects (engine (sys st))))
           (exitLog (effects (engine (sys st)))) (taken st) (observers (sys st)) (ctl st)"
    by (simp_all add: serial_inv_def)
  from names_agree_step [OF na step] have na': "names_agree (sys st')" .
  have r': "returned st' \<longrightarrow> observers (sys st') = []"
    using ret system_step_Returned_empty names_agree_empty [OF na'] by blast
  from step have "logs_ok ms (started (effects (engine (sys st'))))
           (exitLog (effects (engine (sys st')))) (taken st)
      \<and> ctl_ok ms (started (effects (engine (sys st'))))
           (exitLog (effects (engine (sys st')))) (taken st) (observers (sys st')) (ctl st)"
  proof (cases rule: system_step_cases)
    case (simple cs s)
    from simple(1,3) Run_body_logs_other [of p "engine (sys st)" cs s]
    have "exitLog (effects s) = exitLog (effects (engine (sys st)))"
      and "started (effects s) = started (effects (engine (sys st)))" by blast+
    with l c simple(2) show ?thesis by simp
  next
    case (insert m s)
    with ni show ?thesis by simp
  next
    case (entrance n m pr sent s)
    from Run_body_logs_other [OF entrance(3)]
    have "exitLog (effects s) = exitLog (effects (engine (sys st)))"
      and "started (effects s) = started (effects (engine (sys st)))" by blast+
    with l ctl_entrance [OF c entrance(2)] entrance(4) show ?thesis by simp
  next
    case (exit n err m pr sent s)
    from Run_body_logs_exit [OF exit(3)]
    have "exitLog (effects s) = exitLog (effects (engine (sys st))) @ [ExitEvent m err]"
      and "started (effects s) = started (effects (engine (sys st)))" by blast+
    with ctl_exit [OF l c exit(2), of err] exit(4) show ?thesis by simp
  qed
  with na' r' pc tk show ?thesis by (simp add: serial_inv_def)
qed

lemma serial_inv_send:
  assumes inv: "serial_inv ms st" and pc: "ctl st = SerialSelect (m # rest)"
    and t: "loopTurn p st (Insert m) (SerialAwaitExit rest) = Some st'"
  shows "serial_inv ms st'"
proof -
  from loopTurn_Some [OF t] have step: "stateOf (system_step p (sys st) (Insert m)) = Some (sys st')"
    and pc': "ctl st' = SerialAwaitExit rest" and tk: "taken st' = taken st"
    and ret: "returned st' \<longrightarrow> system_step p (sys st) (Insert m) = Returned (sys st')"
    by simp_all
  from inv pc have na: "names_agree (sys st)"
    and l: "logs_ok ms (started (effects (engine (sys st))))
           (exitLog (effects (engine (sys st)))) (taken st)"
    and c: "ctl_ok ms (started (effects (engine (sys st))))
           (exitLog (effects (engine (sys st)))) (taken st) (observers (sys st))
           (SerialSelect (m # rest))"
    by (simp_all add: serial_inv_def)
  from names_agree_step [OF na step] have na': "names_agree (sys st')" .
  have r': "returned st' \<longrightarrow> observers (sys st') = []"
    using ret system_step_Returned_empty names_agree_empty [OF na'] by blast
  from step have "logs_ok ms (started (effects (engine (sys st'))))
           (exitLog (effects (engine (sys st')))) (taken st)
      \<and> ctl_ok ms (started (effects (engine (sys st'))))
           (exitLog (effects (engine (sys st')))) (taken st) (observers (sys st'))
           (SerialAwaitExit rest)"
  proof (cases rule: system_step_cases)
    case (insert m' s)
    then have m': "m' = m" by simp
    from Run_body_logs_insert [OF insert(2)] m'
    have "exitLog (effects s) = exitLog (effects (engine (sys st)))"
      and "started (effects s) = started (effects (engine (sys st))) @ [m]" by simp_all
    with ctl_send [OF l c] insert(3) m' show ?thesis by simp
  qed simp_all
  with na' r' pc' tk show ?thesis by (simp add: serial_inv_def)
qed

lemma serial_inv_step:
  assumes inv: "serial_inv ms st" and step: "serial_step p st e = Some st'"
  shows "serial_inv ms st'"
proof (cases e)
  case (Loop ev)
  show ?thesis
  proof (cases ev)
    case (Insert m)
    with Loop step show ?thesis by simp
  next
    case (Signals sig)
    with Loop step have "loopTurn p st ev (ctl st) = Some st'" by simp
    from serial_inv_loop [OF inv this] Signals show ?thesis by simp
  next
    case CloseNotified
    with Loop step have "loopTurn p st ev (ctl st) = Some st'" by simp
    from serial_inv_loop [OF inv this] CloseNotified show ?thesis by simp
  next
    case InsertClosed
    with Loop step have "loopTurn p st ev (ctl st) = Some st'" by simp
    from serial_inv_loop [OF inv this] InsertClosed show ?thesis by simp
  next
    case (Entrance n)
    with Loop step have "loopTurn p st ev (ctl st) = Some st'" by simp
    from serial_inv_loop [OF inv this] Entrance show ?thesis by simp
  next
    case (Exit n err)
    with Loop step have "loopTurn p st ev (ctl st) = Some st'" by simp
    from serial_inv_loop [OF inv this] Exit show ?thesis by simp
  qed
next
  case Send
  with step obtain m rest where pc: "ctl st = SerialSelect (m # rest)"
    and t: "loopTurn p st (Insert m) (SerialAwaitExit rest) = Some st'"
    by (auto split: serial_pc.splits list.splits)
  from serial_inv_send [OF inv pc t] show ?thesis .
next
  case SeeClosed
  with step obtain m rest where pc: "ctl st = SerialSelect (m # rest)"
    and st': "st' = st\<lparr>ctl := SerialReturned\<rparr>"
    by (cases "ctl st" rule: serial_pc.exhaust; cases "case ctl st of SerialSelect xs \<Rightarrow> xs | _ \<Rightarrow> []")
      auto
  from inv pc have c: "ctl_ok ms (started (effects (engine (sys st))))
           (exitLog (effects (engine (sys st)))) (taken st) (observers (sys st))
           (SerialSelect (m # rest))"
    by (simp add: serial_inv_def)
  from inv ctl_closed [OF c] st' show ?thesis by (simp add: serial_inv_def)
next
  case TakeExit
  let ?lg = "exitLog (effects (engine (sys st)))"
  let ?ins = "started (effects (engine (sys st)))"
  from inv have l: "logs_ok ms ?ins ?lg (taken st)"
    and c: "ctl_ok ms ?ins ?lg (taken st) (observers (sys st)) (ctl st)"
    and r: "returned st \<longrightarrow> observers (sys st) = []"
    by (simp_all add: serial_inv_def)
  from TakeExit step obtain rest where pc: "ctl st = SerialAwaitExit rest"
    by (cases "ctl st") (auto split: if_splits)
  show ?thesis
  proof (cases "taken st < length ?lg")
    case True
    with TakeExit step pc have st': "st' = st\<lparr>ctl :=
        (if Err (?lg ! taken st) \<noteq> None then SerialReturned else SerialSelect rest),
        taken := taken st + 1\<rparr>" by auto
    from ctl_take [OF l c [unfolded pc] True] inv st' show ?thesis
      by (simp add: serial_inv_def)
  next
    case False
    from ctl_nothing_to_take [OF c [unfolded pc] l False] r have "\<not> returned st" by blast
    with TakeExit step False show ?thesis by simp
  qed
qed

lemma serial_inv_run:
  "serial_inv ms st \<Longrightarrow> serial_run p st es = Some st' \<Longrightarrow> serial_inv ms st'"
proof (induction es arbitrary: st)
  case Nil
  then show ?case by simp
next
  case (Cons e es)
  from Cons.prems(2) obtain st1 where s: "serial_step p st e = Some st1"
    and r: "serial_run p st1 es = Some st'"
    by (auto split: option.splits)
  from Cons.IH [OF serial_inv_step [OF Cons.prems(1) s] r] show ?case .
qed

lemma serial_inv_start: "serial_inv ms (serial_start p ms)"
  by (simp add: serial_inv_def serial_start_def system_start_def Run_start_def
      names_agree_def newProcessSet_def logs_ok_def ctl_ok_def)

lemma Run_body_entrances:
  assumes "Run_body p s c = Next s' \<or> Run_body p s c = Returned s'"
  shows "entranceLog (effects s') =
     entranceLog (effects s) @ (case c of RecvEntrance e \<Rightarrow> [e] | _ \<Rightarrow> [])"
proof (cases c)
  case (RecvSignals sig)
  with assms logs_Signal [of "procs s" sig] show ?thesis
    by (auto split: prod.splits simp: logs_append)
next
  case (RecvExit x)
  with assms logs_Signal [of "Remove (procs s) (Name (ExitMember x))" "group_signal p"]
  show ?thesis
    by (auto simp: Let_def logs_append split: if_splits prod.splits)
qed (use assms in \<open>auto split: if_splits sum.splits simp: logs_append\<close>)

lemma entrances_started_step:
  assumes inv: "entrances_started st" and step: "stateOf (system_step p st ev) = Some st'"
  shows "entrances_started st'"
  using step
proof (cases rule: system_step_cases)
  case (simple c s)
  from simple(1,3) Run_body_logs_other [of p "engine st" c s]
  have "started (effects s) = started (effects (engine st))" by blast
  moreover from simple(3) Run_body_entrances [OF simple(1)]
  have "entranceLog (effects s) = entranceLog (effects (engine st))" by auto
  ultimately show ?thesis using inv simple(2) by (simp add: entrances_started_def)
next
  case (insert m s)
  from Run_body_logs_insert [OF insert(2)]
  have "started (effects s) = started (effects (engine st)) @ [m]" by blast
  moreover from Run_body_entrances [OF insert(2)]
  have "entranceLog (effects s) = entranceLog (effects (engine st))" by simp
  ultimately show ?thesis using inv insert(3) by (auto simp: entrances_started_def)
next
  case (entrance n m pr sent s)
  from Run_body_logs_other [OF entrance(3)]
  have "started (effects s) = started (effects (engine st))" by blast
  moreover from Run_body_entrances [OF entrance(3)]
  have "entranceLog (effects s) = entranceLog (effects (engine st)) @ [EntranceEvent m pr]"
    by simp
  moreover from find_SomeD [OF entrance(2)] have "(m, pr, sent) \<in> set (observers st)" by auto
  then have "m \<in> fst ` set (observers st)" by force
  ultimately show ?thesis using inv entrance(4) by (auto simp: entrances_started_def)
next
  case (exit n err m pr sent s)
  from Run_body_logs_exit [OF exit(3)]
  have "started (effects s) = started (effects (engine st))" by blast
  moreover from Run_body_entrances [OF exit(3)]
  have "entranceLog (effects s) = entranceLog (effects (engine st))" by simp
  ultimately show ?thesis using inv exit(4) by (auto simp: entrances_started_def)
qed

lemma serial_step_sys:
  assumes "serial_step p st e = Some st'"
  shows "sys st' = sys st \<or> (\<exists>ev. stateOf (system_step p (sys st) ev) = Some (sys st'))"
proof (cases e)
  case (Loop ev)
  with assms have "loopTurn p st ev (ctl st) = Some st'" by (cases ev) simp_all
  from loopTurn_Some [OF this] show ?thesis by blast
next
  case Send
  with assms obtain m rest where "loopTurn p st (Insert m) (SerialAwaitExit rest) = Some st'"
    by (auto split: serial_pc.splits list.splits)
  from loopTurn_Some [OF this] show ?thesis by blast
next
  case SeeClosed
  with assms show ?thesis by auto
next
  case TakeExit
  with assms show ?thesis by (auto split: if_splits)
qed

lemma entrances_started_run:
  "entrances_started (sys st) \<Longrightarrow> serial_run p st es = Some st' \<Longrightarrow>
     entrances_started (sys st')"
proof (induction es arbitrary: st)
  case Nil
  then show ?case by simp
next
  case (Cons e es)
  from Cons.prems(2) obtain st1 where s: "serial_step p st e = Some st1"
    and r: "serial_run p st1 es = Some st'"
    by (auto split: option.splits)
  have "entrances_started (sys st1)"
    using serial_step_sys [OF s]
  proof
    assume "sys st1 = sys st"
    with Cons.prems(1) show ?thesis by simp
  next
    assume "\<exists>ev. stateOf (system_step p (sys st) ev) = Some (sys st1)"
    then obtain ev where "stateOf (system_step p (sys st) ev) = Some (sys st1)" ..
    from entrances_started_step [OF Cons.prems(1) this] show ?thesis .
  qed
  from Cons.IH [OF this r] show ?case .
qed

text \<open>
  C6. At every point of every run of a serial group over the members \<open>ms\<close>: the members
  started so far are an initial segment of \<open>ms\<close>, in order; the exit events broadcast
  so far are those of an initial segment of the started members, one each and in
  order; a member other than the first has been started only after the controller had
  received the exit event of the member before it, and that exit carried a nil error;
  entrances have been broadcast for started members only. Hence, once the exit of the
  member at position \<open>i\<close> carries an error, the started members are exactly the first
  \<open>i + 1\<close> members and the trace is exactly their exits, now and at every later point.
\<close>

theorem serial_group:
  assumes "serial_run p (serial_start p ms) es = Some st"
  shows "startedMembers st = take (length (startedMembers st)) ms
     \<and> map ExitMember (exitTrace st) = take (length (exitTrace st)) ms
     \<and> length (exitTrace st) \<le> length (startedMembers st)
     \<and> (\<forall>j. Suc j < length (startedMembers st) \<longrightarrow>
           j < taken st \<and> j < length (exitTrace st) \<and> Err (exitTrace st ! j) = None)
     \<and> set (map EntranceMember (entrances st)) \<subseteq> set (startedMembers st)
     \<and> (\<forall>i < length (exitTrace st). Err (exitTrace st ! i) \<noteq> None \<longrightarrow>
           startedMembers st = take (Suc i) ms
           \<and> map ExitMember (exitTrace st) = take (Suc i) ms
           \<and> length (exitTrace st) = Suc i)"
proof -
  let ?ins = "startedMembers st" and ?lg = "exitTrace st"
  from serial_inv_run [OF serial_inv_start assms]
  have "logs_ok ms ?ins ?lg (taken st)"
    by (simp add: serial_inv_def startedMembers_def exitTrace_def)
  then have p: "?ins = take (length ?ins) ms"
    and e: "map ExitMember ?lg = take (length ?lg) ?ins" and tl: "taken st \<le> length ?lg"
    and a: "\<forall>j. Suc j < length ?ins \<longrightarrow> Err (?lg ! j) = None \<and> j < taken st"
    by (simp_all add: logs_ok_def)
  from e have "length ?lg = length (take (length ?lg) ?ins)" by (metis length_map)
  then have le: "length ?lg \<le> length ?ins" by simp
  have "take (length ?lg) ?ins = take (length ?lg) (take (length ?ins) ms)"
    using p by simp
  also have "\<dots> = take (length ?lg) ms" using le by (simp add: min_def)
  finally have e': "map ExitMember ?lg = take (length ?lg) ms" using e by simp
  have a': "\<forall>j. Suc j < length ?ins \<longrightarrow>
           j < taken st \<and> j < length ?lg \<and> Err (?lg ! j) = None"
    using a tl by fastforce
  have "entrances_started (sys (serial_start p ms))"
    by (simp add: entrances_started_def serial_start_def system_start_def Run_start_def)
  from entrances_started_run [OF this assms]
  have en: "set (map EntranceMember (entrances st)) \<subseteq> set ?ins"
    by (simp add: entrances_started_def entrances_def startedMembers_def)
  have err: "\<forall>i < length ?lg. Err (?lg ! i) \<noteq> None \<longrightarrow>
           ?ins = take (Suc i) ms \<and> map ExitMember ?lg = take (Suc i) ms
           \<and> length ?lg = Suc i"
  proof (intro allI impI)
    fix i assume i: "i < length ?lg" and ne: "Err (?lg ! i) \<noteq> None"
    have "\<not> Suc i < length ?ins"
    proof
      assume "Suc i < length ?ins"
      with a have "Err (?lg ! i) = None" by simp
      with ne show False by simp
    qed
    with i le have "length ?ins = Suc i" and "length ?lg = Suc i" by simp_all
    with p e' show "?ins = take (Suc i) ms \<and> map ExitMember ?lg = take (Suc i) ms
           \<and> length ?lg = Suc i" by simp
  qed
  from p e' le a' en err show ?thesis by blast
qed

lemmas serial_simps =
  serial_start_def loopTurn_def startedMembers_def exitTrace_def entrances_def

theorem serial_group_witness:
  "\<exists>st. serial_run (NewDynamic None 3 3 False)
        (serial_start (NewDynamic None 3 3 False)
           [Member ''A'' 0, Member ''B'' 1, Member ''C'' 2])
        [Send, Loop (Entrance ''A''), Loop (Exit ''A'' None), TakeExit,
         Send, Loop (Entrance ''B''), Loop (Exit ''B'' (Some ''fail'')), TakeExit] = Some st
     \<and> exitTrace st = [ExitEvent (Member ''A'' 0) None, ExitEvent (Member ''B'' 1) (Some ''fail'')]
     \<and> startedMembers st = [Member ''A'' 0, Member ''B'' 1]
     \<and> ctl st = SerialReturned"
proof -
  let ?es = "[Send, Loop (Entrance ''A''), Loop (Exit ''A'' None), TakeExit,
         Send, Loop (Entrance ''B''), Loop (Exit ''B'' (Some ''fail'')), TakeExit]"
  let ?ms = "[Member ''A'' 0, Member ''B'' 1, Member ''C'' 2]"
  obtain st where st: "serial_run (NewDynamic None 3 3 False)
        (serial_start (NewDynamic None 3 3 False) ?ms) ?es = Some st"
    by (simp add: run_simps serial_simps)
  have tr: "exitTrace st =
      [ExitEvent (Member ''A'' 0) None, ExitEvent (Member ''B'' 1) (Some ''fail'')]"
    and pc: "ctl st = SerialReturned"
    using st by (auto simp: run_simps serial_simps)
  from serial_group [OF st, THEN conjunct2, THEN conjunct2, THEN conjunct2, THEN conjunct2,
      THEN conjunct2, rule_format, of 1]
  have "startedMembers st = take (Suc 1) ?ms" using tr by simp
  with st tr pc show ?thesis by simp
qed

section \<open>The ordered group: one member at a time, each after the entrance of the one before\<close>

lemma Run_body_effects_grow:
  assumes "Run_body p s c = Next s' \<or> Run_body p s c = Returned s'"
  shows "\<exists>acts. effects s' = effects s @ acts"
proof (cases c)
  case (RecvSignals sig)
  with assms show ?thesis by (auto split: prod.splits)
next
  case (RecvExit x)
  with assms show ?thesis by (auto simp: Let_def split: if_splits prod.splits)
qed (use assms in \<open>auto split: if_splits sum.splits\<close>)

lemma system_step_effects_grow:
  assumes "stateOf (system_step p st ev) = Some st'"
  shows "\<exists>acts. effects (engine st') = effects (engine st) @ acts"
  using assms
proof (cases rule: system_step_cases)
  case (simple c s)
  with Run_body_effects_grow [OF simple(1)] show ?thesis by simp
next
  case (insert m s)
  with Run_body_effects_grow [OF insert(2)] show ?thesis by simp
next
  case (entrance n m pr sent s)
  with Run_body_effects_grow [OF entrance(3)] show ?thesis by simp
next
  case (exit n err m pr sent s)
  with Run_body_effects_grow [OF exit(3)] show ?thesis by simp
qed

lemma entranceClosed_append: "entranceClosed acts \<Longrightarrow> entranceClosed (acts @ acts2)"
  by (auto simp: entranceClosed_def)

lemma entranceView_open: "\<not> entranceClosed acts \<Longrightarrow> entranceView acts = entranceLog acts"
proof -
  assume "\<not> entranceClosed acts"
  then have "takeWhile (\<lambda>a. a \<noteq> CloseEntranceBroadcaster \<and> a \<noteq> CloseBroadcasters) acts = acts"
    by (auto simp: entranceClosed_def takeWhile_eq_all_conv)
  then show ?thesis unfolding entranceView_def by (rule arg_cong)
qed

lemma pending_append:
  "pending (obs @ [(m, pr, False)]) = pending obs @ [(m, pr, False)]"
  by (simp add: pending_def)

lemma pending_mark:
  "pending (map (\<lambda>(m', pr', sent'). (m', pr', sent' \<or> Name m' = n)) obs) =
     filter (\<lambda>(m', pr', sent'). Name m' \<noteq> n) (pending obs)"
  by (induction obs) (auto simp: pending_def)

lemma pending_remove:
  "pending (filter (\<lambda>(m', pr', sent'). Name m' \<noteq> n) obs) =
     filter (\<lambda>(m', pr', sent'). Name m' \<noteq> n) (pending obs)"
  by (induction obs) (auto simp: pending_def)

lemma pending_find:
  "find (\<lambda>(m, pr, sent). Name m = n \<and> \<not> sent) obs = Some (m, pr, sent) \<Longrightarrow>
     (m, pr, sent) \<in> set (pending obs) \<and> Name m = n"
  by (auto simp: pending_def dest!: find_SomeD)

lemma orderedTurn_Some:
  assumes "orderedTurn p st ev pc = Some st'"
  shows "stateOf (system_step p (osys st) ev) = Some (osys st')
     \<and> octl st' = pc \<and> got st' = got st"
  using assms by (auto simp: orderedTurn_def split: if_splits turn.splits)

lemma sends_send:
  assumes "sends_ok ms ins n (OrderedSelect (m # rest))"
  shows "sends_ok ms (ins @ [m]) n (OrderedAwaitEntrance rest)"
proof -
  from assms have p: "ins = take (length ins) ms" and d: "m # rest = drop (length ins) ms"
    and n: "n = length ins"
    by (simp_all add: sends_ok_def)
  from drop_eq_ConsD [OF d [symmetric]] have l: "length ins < length ms"
    and m: "ms ! length ins = m" and r: "drop (Suc (length ins)) ms = rest" by simp_all
  have len: "length (ins @ [m]) = Suc (length ins)" by simp
  have "ins @ [m] = take (Suc (length ins)) ms"
    using p l m by (simp add: take_Suc_conv_app_nth)
  with r n show ?thesis unfolding sends_ok_def len by simp
qed

lemma sends_abort:
  assumes "sends_ok ms ins n (OrderedSelect (m # rest))"
  shows "sends_ok ms ins n OrderedReturnedOnClose"
    and "sends_ok ms ins n (OrderedReturnedOnExit trace)"
  using assms by (simp_all add: sends_ok_def)

lemma sends_take:
  assumes "sends_ok ms ins n (OrderedAwaitEntrance rest)"
  shows "sends_ok ms ins (Suc n) (OrderedSelect rest)"
  using assms by (simp add: sends_ok_def)

lemma sends_bound: "sends_ok ms ins n pc \<Longrightarrow> n \<le> length ins \<and> length ins \<le> Suc n"
  by (cases pc) (auto simp: sends_ok_def)

lemma entrances_send:
  assumes e: "entrances_ok ins elog gt obs" and n: "length gt = length ins"
  shows "entrances_ok (ins @ [m]) elog gt (obs @ [(m, Background m, False)])"
proof -
  from e have el: "elog = map (\<lambda>m. EntranceEvent m (Background m)) (take (length elog) ins)"
    and g: "gt = map Some (take (length gt) elog)" and gl: "length gt \<le> length elog"
    and d: "(length elog = length ins \<and> pending obs = [])
          \<or> (Suc (length elog) = length ins
              \<and> pending obs = [(last ins, Background (last ins), False)])"
    by (simp_all add: entrances_ok_def)
  from d gl n have le: "length elog = length ins" and pe: "pending obs = []" by auto
  have el': "elog = map (\<lambda>m. EntranceEvent m (Background m)) (take (length elog) (ins @ [m]))"
    using el le by simp
  have "Suc (length elog) = length (ins @ [m])
      \<and> pending (obs @ [(m, Background m, False)]) =
          [(last (ins @ [m]), Background (last (ins @ [m])), False)]"
    using le pe by (simp add: pending_append)
  with el' g gl show ?thesis unfolding entrances_ok_def by blast
qed

lemma entrances_entrance:
  assumes e: "entrances_ok ins elog gt obs"
    and f: "find (\<lambda>(m, pr, sent). Name m = n \<and> \<not> sent) obs = Some (m, pr, sent)"
  shows "entrances_ok ins (elog @ [EntranceEvent m pr]) gt
           (map (\<lambda>(m', pr', sent'). (m', pr', sent' \<or> Name m' = n)) obs)"
proof -
  from e have el: "elog = map (\<lambda>m. EntranceEvent m (Background m)) (take (length elog) ins)"
    and g: "gt = map Some (take (length gt) elog)" and gl: "length gt \<le> length elog"
    and d: "(length elog = length ins \<and> pending obs = [])
          \<or> (Suc (length elog) = length ins
              \<and> pending obs = [(last ins, Background (last ins), False)])"
    by (simp_all add: entrances_ok_def)
  from pending_find [OF f] have mem: "(m, pr, sent) \<in> set (pending obs)" and nm: "Name m = n"
    by simp_all
  with d have sl: "Suc (length elog) = length ins"
    and pe: "pending obs = [(last ins, Background (last ins), False)]" by auto
  from mem pe have m: "m = last ins" and pr: "pr = Background (last ins)" by simp_all
  from sl have ne: "ins \<noteq> []" by auto
  have "length elog = length ins - 1" using sl by simp
  then have "take (length elog) ins = butlast ins" by (simp add: butlast_conv_take)
  then have "map (\<lambda>m. EntranceEvent m (Background m)) (take (length elog) ins)
      @ [EntranceEvent m pr] = map (\<lambda>m. EntranceEvent m (Background m)) (butlast ins @ [last ins])"
    using m pr by simp
  also have "\<dots> = map (\<lambda>m. EntranceEvent m (Background m)) ins" using ne by simp
  finally have el': "elog @ [EntranceEvent m pr] =
      map (\<lambda>m. EntranceEvent m (Background m)) (take (length (elog @ [EntranceEvent m pr])) ins)"
    using el sl by simp
  have g': "gt = map Some (take (length gt) (elog @ [EntranceEvent m pr]))"
    using g gl by simp
  have gl': "length gt \<le> length (elog @ [EntranceEvent m pr])" using gl by simp
  have "pending (map (\<lambda>(m', pr', sent'). (m', pr', sent' \<or> Name m' = n)) obs) = []"
    using pe m nm by (simp add: pending_mark)
  then have "length (elog @ [EntranceEvent m pr]) = length ins
      \<and> pending (map (\<lambda>(m', pr', sent'). (m', pr', sent' \<or> Name m' = n)) obs) = []"
    using sl by simp
  with el' g' gl' show ?thesis unfolding entrances_ok_def by blast
qed

lemma entrances_exit:
  assumes e: "entrances_ok ins elog gt obs"
    and dist: "distinct (map (\<lambda>ob. Name (fst ob)) obs)"
    and f: "find (\<lambda>(m, pr, sent). Name m = n \<and> sent) obs = Some (m, pr, sent)"
  shows "entrances_ok ins elog gt (filter (\<lambda>(m', pr', sent'). Name m' \<noteq> n) obs)"
proof -
  from e have el: "elog = map (\<lambda>m. EntranceEvent m (Background m)) (take (length elog) ins)"
    and g: "gt = map Some (take (length gt) elog)" and gl: "length gt \<le> length elog"
    and d: "(length elog = length ins \<and> pending obs = [])
          \<or> (Suc (length elog) = length ins
              \<and> pending obs = [(last ins, Background (last ins), False)])"
    by (simp_all add: entrances_ok_def)
  from find_SomeD [OF f] have mem: "(m, pr, sent) \<in> set obs" and nm: "Name m = n" and s: "sent"
    by auto
  have keep: "filter (\<lambda>(m', pr', sent'). Name m' \<noteq> n) (pending obs) = pending obs"
  proof (cases "pending obs = []")
    case True
    then show ?thesis by simp
  next
    case False
    with d have pe: "pending obs = [(last ins, Background (last ins), False)]" by auto
    then have "(last ins, Background (last ins), False) \<in> set (pending obs)" by simp
    then have mem': "(last ins, Background (last ins), False) \<in> set obs"
      by (simp add: pending_def)
    have "Name (last ins) \<noteq> n"
    proof
      assume eq: "Name (last ins) = n"
      from dist have "inj_on (\<lambda>ob. Name (fst ob)) (set obs)" by (simp add: distinct_map)
      from inj_onD [OF this _ mem' mem] eq nm
      have "\<not> sent" by auto
      with s show False by simp
    qed
    with pe show ?thesis by simp
  qed
  from d have "(length elog = length ins
        \<and> pending (filter (\<lambda>(m', pr', sent'). Name m' \<noteq> n) obs) = [])
      \<or> (Suc (length elog) = length ins
          \<and> pending (filter (\<lambda>(m', pr', sent'). Name m' \<noteq> n) obs) =
              [(last ins, Background (last ins), False)])"
    unfolding pending_remove keep .
  with el g gl show ?thesis unfolding entrances_ok_def by blast
qed

lemma entrances_take:
  assumes e: "entrances_ok ins elog gt obs" and l: "length gt < length elog"
  shows "entrances_ok ins elog (gt @ [Some (elog ! length gt)]) obs"
proof -
  from e have el: "elog = map (\<lambda>m. EntranceEvent m (Background m)) (take (length elog) ins)"
    and g: "gt = map Some (take (length gt) elog)"
    and d: "(length elog = length ins \<and> pending obs = [])
          \<or> (Suc (length elog) = length ins
              \<and> pending obs = [(last ins, Background (last ins), False)])"
    by (simp_all add: entrances_ok_def)
  have "map Some (take (length (gt @ [Some (elog ! length gt)])) elog) =
      map Some (take (length gt) elog) @ [Some (elog ! length gt)]"
    using l by (simp add: take_Suc_conv_app_nth)
  with g have g': "gt @ [Some (elog ! length gt)] =
      map Some (take (length (gt @ [Some (elog ! length gt)])) elog)" by simp
  have "length (gt @ [Some (elog ! length gt)]) \<le> length elog" using l by simp
  with el g' d show ?thesis unfolding entrances_ok_def by blast
qed

lemma entrances_real:
  assumes "entrances_ok ins elog gt obs"
  shows "length (filter (\<lambda>g. g \<noteq> None) gt) = length gt"
proof -
  from assms have "gt = map Some (take (length gt) elog)" by (simp add: entrances_ok_def)
  then have "\<forall>g \<in> set gt. g \<noteq> None" by (metis ex_map_conv option.distinct(1))
  then show ?thesis by simp
qed

lemma ordered_step_Some:
  assumes "ordered_step w pc ob = Some pc'"
  shows "(\<exists>m rest. pc = OrderedSelect (m # rest)
            \<and> ((ob = OrderedSent \<and> pc' = OrderedAwaitEntrance rest)
                \<or> (ob = OrderedSeesClosed \<and> pc' = OrderedReturnedOnClose)
                \<or> (\<exists>x. ob = OrderedSeesExit x \<and> w \<and> pc' = OrderedReturnedOnExit [x])))
         \<or> (\<exists>rest. pc = OrderedAwaitEntrance rest \<and> ob = OrderedEntered
               \<and> pc' = OrderedSelect rest)"
  using assms by (cases "(w, pc, ob)" rule: ordered_step.cases) (auto split: if_splits)

lemma names_distinct:
  "names_agree st \<Longrightarrow> distinct (map (\<lambda>ob. Name (fst ob)) (observers st))"
  unfolding names_agree_def by metis

lemma system_step_open:
  assumes "stateOf (system_step p st ev) = Some st'"
    and "\<not> entranceClosed (effects (engine st'))"
  shows "\<not> entranceClosed (effects (engine st))"
  using system_step_effects_grow [OF assms(1)] assms(2) entranceClosed_append by fastforce

lemma ordered_inv_loop:
  assumes inv: "ordered_inv ms st" and t: "orderedTurn p st ev pc = Some st'"
    and same: "pc = octl st" and ni: "\<forall>m. ev \<noteq> Insert m"
  shows "ordered_inv ms st'"
proof -
  let ?ins = "started (effects (engine (osys st)))"
  let ?elog = "entranceLog (effects (engine (osys st)))"
  from orderedTurn_Some [OF t] have step: "stateOf (system_step p (osys st) ev) = Some (osys st')"
    and pc: "octl st' = octl st" and gt: "got st' = got st"
    using same by simp_all
  from inv have na: "names_agree (osys st)"
    and s: "sends_ok ms ?ins (length (got st)) (octl st)"
    and e: "entranceOpen st \<longrightarrow> entrances_ok ?ins ?elog (got st) (observers (osys st))"
    by (simp_all add: ordered_inv_def)
  from names_agree_step [OF na step] have na': "names_agree (osys st')" .
  have ins: "started (effects (engine (osys st'))) = ?ins"
    using step
  proof (cases rule: system_step_cases)
    case (simple cs s)
    from simple(1,3) Run_body_logs_other [of p "engine (osys st)" cs s] simple(2)
    show ?thesis by auto
  next
    case (insert m s)
    with ni show ?thesis by simp
  next
    case (entrance n m pr sent s)
    from Run_body_logs_other [OF entrance(3)] entrance(4) show ?thesis by simp
  next
    case (exit n err m pr sent s)
    from Run_body_logs_exit [OF exit(3)] exit(4) show ?thesis by simp
  qed
  have e': "entranceOpen st' \<longrightarrow>
      entrances_ok ?ins (entranceLog (effects (engine (osys st')))) (got st)
        (observers (osys st'))"
  proof
    assume op: "entranceOpen st'"
    with system_step_open [OF step] have "entranceOpen st" by (simp add: entranceOpen_def)
    with e have ok: "entrances_ok ?ins ?elog (got st) (observers (osys st))" by simp
    from step show "entrances_ok ?ins (entranceLog (effects (engine (osys st')))) (got st)
        (observers (osys st'))"
    proof (cases rule: system_step_cases)
      case (simple cs s)
      from simple(3) Run_body_entrances [OF simple(1)]
      have "entranceLog (effects s) = ?elog" by auto
      with ok simple(2) show ?thesis by simp
    next
      case (insert m s)
      with ni show ?thesis by simp
    next
      case (entrance n m pr sent s)
      from Run_body_entrances [OF entrance(3)]
      have "entranceLog (effects s) = ?elog @ [EntranceEvent m pr]" by simp
      with entrances_entrance [OF ok entrance(2)] entrance(4) show ?thesis by simp
    next
      case (exit n err m pr sent s)
      from Run_body_entrances [OF exit(3)]
      have "entranceLog (effects s) = ?elog" by simp
      with entrances_exit [OF ok names_distinct [OF na] exit(2)] exit(4) show ?thesis by simp
    qed
  qed
  from na' s e' ins pc gt show ?thesis by (simp add: ordered_inv_def)
qed

lemma ordered_inv_send:
  assumes inv: "ordered_inv ms st" and pc: "octl st = OrderedSelect (m # rest)"
    and t: "orderedTurn p st (Insert m) (OrderedAwaitEntrance rest) = Some st'"
  shows "ordered_inv ms st'"
proof -
  let ?ins = "started (effects (engine (osys st)))"
  let ?elog = "entranceLog (effects (engine (osys st)))"
  from orderedTurn_Some [OF t]
  have step: "stateOf (system_step p (osys st) (Insert m)) = Some (osys st')"
    and pc': "octl st' = OrderedAwaitEntrance rest" and gt: "got st' = got st"
    by simp_all
  from inv pc have na: "names_agree (osys st)"
    and s: "sends_ok ms ?ins (length (got st)) (OrderedSelect (m # rest))"
    and e: "entranceOpen st \<longrightarrow> entrances_ok ?ins ?elog (got st) (observers (osys st))"
    by (simp_all add: ordered_inv_def)
  from s have n: "length (got st) = length ?ins" by (simp add: sends_ok_def)
  from names_agree_step [OF na step] have na': "names_agree (osys st')" .
  from step have f: "started (effects (engine (osys st'))) = ?ins @ [m]
      \<and> entranceLog (effects (engine (osys st'))) = ?elog
      \<and> observers (osys st') = observers (osys st) @ [(m, Background m, False)]"
  proof (cases rule: system_step_cases)
    case (insert m' s)
    then have m': "m' = m" by simp
    from Run_body_logs_insert [OF insert(2)] Run_body_entrances [OF insert(2)] insert(3) m'
    show ?thesis by simp
  qed simp_all
  have e': "entranceOpen st' \<longrightarrow>
      entrances_ok (?ins @ [m]) ?elog (got st) (observers (osys st) @ [(m, Background m, False)])"
  proof
    assume "entranceOpen st'"
    with system_step_open [OF step] have "entranceOpen st" by (simp add: entranceOpen_def)
    with e have "entrances_ok ?ins ?elog (got st) (observers (osys st))" by simp
    from entrances_send [OF this n]
    show "entrances_ok (?ins @ [m]) ?elog (got st)
        (observers (osys st) @ [(m, Background m, False)])" .
  qed
  from na' sends_send [OF s] e' f pc' gt show ?thesis by (simp add: ordered_inv_def)
qed

lemma ordered_inv_step:
  assumes inv: "ordered_inv ms st" and step: "ordered_system_step w p st e = Some st'"
  shows "ordered_inv ms st'"
proof (cases e)
  case (OrderedLoop ev)
  show ?thesis
  proof (cases "\<exists>m. ev = Insert m")
    case True
    with OrderedLoop step show ?thesis by auto
  next
    case False
    with OrderedLoop step have "orderedTurn p st ev (octl st) = Some st'" by (cases ev) simp_all
    from ordered_inv_loop [OF inv this] False show ?thesis by simp
  qed
next
  case OrderedSend
  with step obtain m rest where pc: "octl st = OrderedSelect (m # rest)"
    and t: "orderedTurn p st (Insert m) (OrderedAwaitEntrance rest) = Some st'"
    by (auto split: ordered_pc.splits list.splits)
  from ordered_inv_send [OF inv pc t] show ?thesis .
next
  case OrderedSeeClosed
  with step obtain pc where o: "ordered_step w (octl st) OrderedSeesClosed = Some pc"
    and st': "st' = st\<lparr>octl := pc\<rparr>" by auto
  from ordered_step_Some [OF o] obtain m rest where pc: "octl st = OrderedSelect (m # rest)"
    and pc': "pc = OrderedReturnedOnClose" by auto
  from inv pc have "sends_ok ms (started (effects (engine (osys st)))) (length (got st))
      (OrderedSelect (m # rest))" by (simp add: ordered_inv_def)
  from sends_abort(1) [OF this] inv st' pc' show ?thesis
    by (simp add: ordered_inv_def entranceOpen_def)
next
  case OrderedSeeExit
  with step obtain x pc where o: "ordered_step w (octl st) (OrderedSeesExit x) = Some pc"
    and st': "st' = st\<lparr>octl := pc\<rparr>" by (auto split: list.splits if_splits)
  from ordered_step_Some [OF o] obtain m rest where pc: "octl st = OrderedSelect (m # rest)"
    and pc': "pc = OrderedReturnedOnExit [x]" by auto
  from inv pc have "sends_ok ms (started (effects (engine (osys st)))) (length (got st))
      (OrderedSelect (m # rest))" by (simp add: ordered_inv_def)
  from sends_abort(2) [OF this] inv st' pc' show ?thesis
    by (simp add: ordered_inv_def entranceOpen_def)
next
  case OrderedTakeEntrance
  let ?ins = "started (effects (engine (osys st)))"
  let ?elog = "entranceLog (effects (engine (osys st)))"
  let ?view = "entranceView (effects (engine (osys st)))"
  let ?n = "length (filter (\<lambda>g. g \<noteq> None) (got st))"
  from inv have na: "names_agree (osys st)"
    and s: "sends_ok ms ?ins (length (got st)) (octl st)"
    and e: "entranceOpen st \<longrightarrow> entrances_ok ?ins ?elog (got st) (observers (osys st))"
    by (simp_all add: ordered_inv_def)
  from OrderedTakeEntrance step obtain pc x
    where o: "ordered_step w (octl st) OrderedEntered = Some pc"
      and st': "st' = st\<lparr>octl := pc, got := got st @ [x]\<rparr>"
      and x: "(?n < length ?view \<and> x = Some (?view ! ?n))
          \<or> (\<not> ?n < length ?view \<and> entranceClosed (effects (engine (osys st))) \<and> x = None)"
    by (auto simp: Let_def split: if_splits)
  from ordered_step_Some [OF o] obtain rest where pc: "octl st = OrderedAwaitEntrance rest"
    and pc': "pc = OrderedSelect rest" by auto
  from s pc have "sends_ok ms ?ins (length (got st)) (OrderedAwaitEntrance rest)" by simp
  from sends_take [OF this] have s': "sends_ok ms ?ins (length (got st @ [x])) (OrderedSelect rest)"
    by simp
  have e': "entranceOpen st \<longrightarrow> entrances_ok ?ins ?elog (got st @ [x]) (observers (osys st))"
  proof
    assume op: "entranceOpen st"
    with e have ok: "entrances_ok ?ins ?elog (got st) (observers (osys st))" by simp
    from op have v: "?view = ?elog" by (simp add: entranceOpen_def entranceView_open)
    from op x v entrances_real [OF ok]
    have "length (got st) < length ?elog" and "x = Some (?elog ! length (got st))"
      by (auto simp: entranceOpen_def)
    with entrances_take [OF ok] show "entrances_ok ?ins ?elog (got st @ [x]) (observers (osys st))"
      by simp
  qed
  from na s' e' st' pc' show ?thesis by (simp add: ordered_inv_def entranceOpen_def)
qed

lemma ordered_inv_run:
  "ordered_inv ms st \<Longrightarrow> ordered_run w p st es = Some st' \<Longrightarrow> ordered_inv ms st'"
proof (induction es arbitrary: st)
  case Nil
  then show ?case by simp
next
  case (Cons e es)
  from Cons.prems(2) obtain st1 where s: "ordered_system_step w p st e = Some st1"
    and r: "ordered_run w p st1 es = Some st'"
    by (auto split: option.splits)
  from Cons.IH [OF ordered_inv_step [OF Cons.prems(1) s] r] show ?case .
qed

lemma ordered_inv_start: "ordered_inv ms (ordered_start p ms)"
  by (simp add: ordered_inv_def ordered_start_def system_start_def Run_start_def
      names_agree_def newProcessSet_def sends_ok_def entrances_ok_def pending_def)

lemma ordered_run_facts:
  assumes "ordered_run w p (ordered_start p ms) es = Some st"
  shows "orderedStarted st = take (length (orderedStarted st)) ms"
    and "length (got st) \<le> length (orderedStarted st)"
    and "\<forall>j. Suc j < length (orderedStarted st) \<longrightarrow> j < length (got st)"
    and "entranceOpen st \<longrightarrow>
           orderedEntrances st =
             map (\<lambda>m. EntranceEvent m (Background m)) (take (length (orderedEntrances st)) ms)
           \<and> (\<forall>j < length (got st).
                 got st ! j = Some (EntranceEvent (ms ! j) (Background (ms ! j))))"
proof -
  let ?ins = "orderedStarted st" and ?elog = "orderedEntrances st"
  from ordered_inv_run [OF ordered_inv_start assms]
  have s: "sends_ok ms ?ins (length (got st)) (octl st)"
    and e: "entranceOpen st \<longrightarrow> entrances_ok ?ins ?elog (got st) (observers (osys st))"
    by (simp_all add: ordered_inv_def orderedStarted_def orderedEntrances_def)
  from s show p: "?ins = take (length ?ins) ms" by (simp add: sends_ok_def)
  from sends_bound [OF s] show "length (got st) \<le> length ?ins"
    and "\<forall>j. Suc j < length ?ins \<longrightarrow> j < length (got st)" by auto
  show "entranceOpen st \<longrightarrow>
           ?elog = map (\<lambda>m. EntranceEvent m (Background m)) (take (length ?elog) ms)
           \<and> (\<forall>j < length (got st).
                 got st ! j = Some (EntranceEvent (ms ! j) (Background (ms ! j))))"
  proof
    assume "entranceOpen st"
    with e have ok: "entrances_ok ?ins ?elog (got st) (observers (osys st))" by simp
    then have el: "?elog = map (\<lambda>m. EntranceEvent m (Background m)) (take (length ?elog) ?ins)"
      and g: "got st = map Some (take (length (got st)) ?elog)"
      and gl: "length (got st) \<le> length ?elog"
      and le: "length ?elog \<le> length ?ins"
      by (auto simp: entrances_ok_def)
    have "take (length ?elog) ?ins = take (length ?elog) (take (length ?ins) ms)"
      using p by simp
    also have "\<dots> = take (length ?elog) ms" using le by (simp add: min_def)
    finally have el': "?elog =
        map (\<lambda>m. EntranceEvent m (Background m)) (take (length ?elog) ms)"
      using el by simp
    have lm: "length ?elog \<le> length ms"
    proof -
      from p have "length ?ins = length (take (length ?ins) ms)" by simp
      then have "length ?ins \<le> length ms" by simp
      with le show ?thesis by simp
    qed
    have "\<forall>j < length (got st).
        got st ! j = Some (EntranceEvent (ms ! j) (Background (ms ! j)))"
    proof (intro allI impI)
      fix j assume j: "j < length (got st)"
      with gl have je: "j < length ?elog" by simp
      from g have "got st ! j = map Some (take (length (got st)) ?elog) ! j" by simp
      also have "\<dots> = Some (?elog ! j)" using j je by simp
      also have "?elog ! j =
          map (\<lambda>m. EntranceEvent m (Background m)) (take (length ?elog) ms) ! j"
        using el' by simp
      also have "\<dots> = EntranceEvent (ms ! j) (Background (ms ! j))"
        using je lm by simp
      finally show "got st ! j = Some (EntranceEvent (ms ! j) (Background (ms ! j)))" .
    qed
    with el' show "?elog =
          map (\<lambda>m. EntranceEvent m (Background m)) (take (length ?elog) ms)
        \<and> (\<forall>j < length (got st).
              got st ! j = Some (EntranceEvent (ms ! j) (Background (ms ! j))))"
      by blast
  qed
qed

text \<open>
  C8. The controller alone: with every earlier round a completed send and receive, the
  loop has sent the members of those rounds, each followed by one receive from the
  entrance listener, and nothing else; it is blocked while nothing more happens, and
  blocked in the receive after a further send; it closes the client when the members
  are used up. \<open>orderedStart\<close> gives up exactly when its \<^verbatim>\<open>select\<close> takes the close
  notifier, and never on account of an exit; \<open>orderedStrategy\<close> gives up exactly when
  its \<^verbatim>\<open>select\<close> takes the close notifier or an exit event, which then is the trace it
  goes on with. The controller with the engine, at every point of every run over the
  members \<open>ms\<close>, in both versions: the members started so far are an initial segment
  of \<open>ms\<close>, in order; a member other than the first has been started only after the
  receive that follows the send of the member before it has completed; and as long as
  the entrance broadcaster has not been closed, the entrance events broadcast are those
  of the started members, in order and one each, and the \<open>j\<close>-th receive of the
  controller has yielded the entrance event of the \<open>j\<close>-th member.
\<close>

theorem ordered_startup:
  "orderedStart (pre @ member # post) (replicate (length pre) (StartSent, True)) =
     (alternation pre, StillWaiting)
   \<and> orderedStart (pre @ member # post)
        (replicate (length pre) (StartSent, True) @ (StartSent, False) # rest) =
       (alternation pre @ [SendInsert member], StillWaiting)
   \<and> orderedStart (pre @ member # post)
        (replicate (length pre) (StartSent, True) @ (StartClosed, entered) # rest) =
       (alternation pre, AbortedOnClose)
   \<and> orderedStart pre (replicate (length pre) (StartSent, True) @ rest) =
       (alternation pre @ [CloseClient], StartupDone)
   \<and> (snd (orderedStart ms obs) = AbortedOnClose \<longleftrightarrow>
       (\<exists>k. k < length ms \<and> k < length obs \<and> fst (obs ! k) = StartClosed
          \<and> (\<forall>j < k. obs ! j = (StartSent, True))))
   \<and> (\<forall>tr. snd (orderedStart ms obs) \<noteq> AbortedOnExit tr)
   \<and> orderedStrategy (pre @ member # post) (replicate (length pre) (StrategySent, True)) =
       (alternation pre, StillWaiting)
   \<and> orderedStrategy (pre @ member # post)
        (replicate (length pre) (StrategySent, True) @ (StrategySent, False) # rest') =
       (alternation pre @ [SendInsert member], StillWaiting)
   \<and> orderedStrategy (pre @ member # post)
        (replicate (length pre) (StrategySent, True) @ (StrategyClosed, entered) # rest') =
       (alternation pre, AbortedOnClose)
   \<and> orderedStrategy (pre @ member # post)
        (replicate (length pre) (StrategySent, True) @ (StrategyExit exit, entered) # rest') =
       (alternation pre, AbortedOnExit [exit])
   \<and> orderedStrategy pre (replicate (length pre) (StrategySent, True) @ rest') =
       (alternation pre @ [CloseClient], StartupDone)
   \<and> (snd (orderedStrategy ms obs') = AbortedOnClose \<longleftrightarrow>
       (\<exists>k. k < length ms \<and> k < length obs' \<and> fst (obs' ! k) = StrategyClosed
          \<and> (\<forall>j < k. obs' ! j = (StrategySent, True))))
   \<and> (\<forall>tr. snd (orderedStrategy ms obs') = AbortedOnExit tr \<longleftrightarrow>
       (\<exists>k. k < length ms \<and> k < length obs'
          \<and> (\<exists>exit. fst (obs' ! k) = StrategyExit exit \<and> tr = [exit])
          \<and> (\<forall>j < k. obs' ! j = (StrategySent, True))))
   \<and> (\<forall>st. ordered_run withExit p (ordered_start p ms) es = Some st \<longrightarrow>
         orderedStarted st = take (length (orderedStarted st)) ms
         \<and> length (got st) \<le> length (orderedStarted st)
         \<and> (\<forall>j. Suc j < length (orderedStarted st) \<longrightarrow> j < length (got st))
         \<and> (entranceOpen st \<longrightarrow>
              orderedEntrances st =
                map (\<lambda>m. EntranceEvent m (Background m))
                  (take (length (orderedEntrances st)) ms)
              \<and> (\<forall>j < length (got st).
                    got st ! j = Some (EntranceEvent (ms ! j) (Background (ms ! j))))))"
proof -
  have sys: "\<forall>st. ordered_run withExit p (ordered_start p ms) es = Some st \<longrightarrow>
         orderedStarted st = take (length (orderedStarted st)) ms
         \<and> length (got st) \<le> length (orderedStarted st)
         \<and> (\<forall>j. Suc j < length (orderedStarted st) \<longrightarrow> j < length (got st))
         \<and> (entranceOpen st \<longrightarrow>
              orderedEntrances st =
                map (\<lambda>m. EntranceEvent m (Background m))
                  (take (length (orderedEntrances st)) ms)
              \<and> (\<forall>j < length (got st).
                    got st ! j = Some (EntranceEvent (ms ! j) (Background (ms ! j)))))"
  proof (intro allI impI)
    fix st assume r: "ordered_run withExit p (ordered_start p ms) es = Some st"
    from ordered_run_facts [OF r]
    show "orderedStarted st = take (length (orderedStarted st)) ms
         \<and> length (got st) \<le> length (orderedStarted st)
         \<and> (\<forall>j. Suc j < length (orderedStarted st) \<longrightarrow> j < length (got st))
         \<and> (entranceOpen st \<longrightarrow>
              orderedEntrances st =
                map (\<lambda>m. EntranceEvent m (Background m))
                  (take (length (orderedEntrances st)) ms)
              \<and> (\<forall>j < length (got st).
                    got st ! j = Some (EntranceEvent (ms ! j) (Background (ms ! j)))))"
      by (intro conjI)
  qed
  have noexit: "\<forall>tr. snd (orderedStart ms obs) \<noteq> AbortedOnExit tr"
    using orderedStart_no_exit_abort by blast
  have exit: "\<forall>tr. snd (orderedStrategy ms obs') = AbortedOnExit tr \<longleftrightarrow>
       (\<exists>k. k < length ms \<and> k < length obs'
          \<and> (\<exists>exit. fst (obs' ! k) = StrategyExit exit \<and> tr = [exit])
          \<and> (\<forall>j < k. obs' ! j = (StrategySent, True)))"
    using orderedStrategy_abort_exit by blast
  show ?thesis
    by (intro conjI orderedStart_rounds orderedStrategy_rounds orderedStart_abort noexit
        orderedStrategy_abort_close exit sys)
qed

lemmas ordered_simps =
  ordered_start_def orderedTurn_def orderedStarted_def orderedEntrances_def entranceOpen_def
  entranceClosed_def entranceView_def

theorem ordered_startup_witness:
  "\<exists>st. ordered_run True (NewDynamic None 2 2 False)
        (ordered_start (NewDynamic None 2 2 False) [Member ''a'' 0, Member ''b'' 1])
        [OrderedSend, OrderedLoop (Entrance ''a''), OrderedTakeEntrance,
         OrderedSend, OrderedLoop (Entrance ''b''), OrderedTakeEntrance] = Some st
     \<and> entranceOpen st
     \<and> orderedStarted st = [Member ''a'' 0, Member ''b'' 1]
     \<and> length (got st) = 2
     \<and> got st ! 1 = Some (EntranceEvent (Member ''b'' 1) (Background (Member ''b'' 1)))
     \<and> octl st = OrderedSelect []"
proof -
  let ?p = "NewDynamic None 2 2 False"
  let ?ms = "[Member ''a'' 0, Member ''b'' 1]"
  let ?es = "[OrderedSend, OrderedLoop (Entrance ''a''), OrderedTakeEntrance,
         OrderedSend, OrderedLoop (Entrance ''b''), OrderedTakeEntrance]"
  obtain st where st: "ordered_run True ?p (ordered_start ?p ?ms) ?es = Some st"
    by (simp add: run_simps ordered_simps)
  have f: "entranceOpen st" "orderedStarted st = ?ms" "length (got st) = 2"
    "octl st = OrderedSelect []"
    using st by (auto simp: run_simps ordered_simps)
  from ordered_startup [of _ _ _ _ _ ?ms _ _ _ _ True ?p ?es, THEN conjunct2, THEN conjunct2,
      THEN conjunct2, THEN conjunct2, THEN conjunct2, THEN conjunct2, THEN conjunct2,
      THEN conjunct2, THEN conjunct2, THEN conjunct2, THEN conjunct2, THEN conjunct2,
      THEN conjunct2, rule_format, OF st, THEN conjunct2, THEN conjunct2, THEN conjunct2,
      rule_format, OF f(1), THEN conjunct2, rule_format, of 1]
  have "got st ! 1 = Some (EntranceEvent (?ms ! 1) (Background (?ms ! 1)))"
    using f(3) by simp
  with st f show ?thesis by simp
qed

text \<open>
  Two runs. \<open>orderedStrategy\<close> over a and b: a is sent and its entrance received;
  then, with the close notifier silent, the \<^verbatim>\<open>select\<close> takes an exit event, and the
  startup is over without b having been sent. \<open>orderedStart\<close> over a, b and c with the
  engine: a and b are started and their entrances received; the client is closed, and
  the loop, with no entrance outstanding, closes the entrance broadcaster and gives up
  its insert channel; a exits, which hands the insert channel back to the loop; the
  controller's send of c is taken, and its receive from the closed entrance listener
  returns at once: the startup loop is over and no entrance event of c has been
  broadcast.
\<close>

theorem ordered_startup_counterexample:
  "orderedStrategy [Member ''a'' 0, Member ''b'' 1]
      [(StrategySent, True), (StrategyExit (ExitEvent (Member ''a'' 0) (Some ''boom'')), False)]
     = ([SendInsert (Member ''a'' 0), RecvEntranceEvent],
        AbortedOnExit [ExitEvent (Member ''a'' 0) (Some ''boom'')])
   \<and> (\<exists>st. ordered_run False (NewDynamic None 3 3 False)
        (ordered_start (NewDynamic None 3 3 False)
           [Member ''a'' 0, Member ''b'' 1, Member ''c'' 2])
        [OrderedSend, OrderedLoop (Entrance ''a''), OrderedTakeEntrance,
         OrderedSend, OrderedLoop (Entrance ''b''), OrderedTakeEntrance,
         OrderedLoop CloseNotified, OrderedLoop (Exit ''a'' None),
         OrderedSend, OrderedTakeEntrance] = Some st
      \<and> orderedStarted st = [Member ''a'' 0, Member ''b'' 1, Member ''c'' 2]
      \<and> orderedEntrances st =
          [EntranceEvent (Member ''a'' 0) (Background (Member ''a'' 0)),
           EntranceEvent (Member ''b'' 1) (Background (Member ''b'' 1))]
      \<and> got st =
          [Some (EntranceEvent (Member ''a'' 0) (Background (Member ''a'' 0))),
           Some (EntranceEvent (Member ''b'' 1) (Background (Member ''b'' 1))), None]
      \<and> octl st = OrderedSelect [])"
  by (simp add: run_simps ordered_simps)

end
